theory Spec2Isabelle
  imports Main "HOL-Library.Word"
begin

section \<open>Selective Repeat over an unreliable channel: embedding of \<^verbatim>\<open>src/sr.c\<close>\<close>

text \<open>
  The development follows \<^verbatim>\<open>src/sr.c\<close>; \<^verbatim>\<open>src/ass2/sr.c\<close> is a variant of the
  same program, and where the two differ in what a property needs the difference is
  noted. The fields of a protocol unit are C \<^verbatim>\<open>int\<close>s that the channel may set to
  any value: they are 32-bit words, whose addition wraps. The counters of the sender
  and the receiver are integers; in the runs considered here \<^verbatim>\<open>A_base\<close>,
  \<^verbatim>\<open>A_nextseq\<close> and \<^verbatim>\<open>B_base\<close> stay below 7, and the three statistics counters of
  the emulator are only ever incremented by one. Every index into one of the
  \<^verbatim>\<open>WINDOWSIZE\<close>-sized arrays is checked against the array's length: an access outside
  the array is undefined in C and is the result \<open>Inl OutOfBounds\<close> here, with which
  the call and the run end. Calls into the emulator (\<^verbatim>\<open>tolayer3\<close>, \<^verbatim>\<open>tolayer5\<close>,
  \<^verbatim>\<open>starttimer\<close>, \<^verbatim>\<open>stoptimer\<close>) are recorded, oldest first, in a list kept in the
  state. The \<^verbatim>\<open>printf\<close> calls guarded by \<^verbatim>\<open>TRACE\<close> only write diagnostics and are
  left out.
\<close>

subsection \<open>Constants and data\<close>

type_synonym byte = "8 word"
type_synonym cint = "32 word"

definition WINDOWSIZE :: int where
  "WINDOWSIZE = 6"

definition SEQSPACE :: int where
  "SEQSPACE = 7"

definition NOTINUSE :: cint where
  "NOTINUSE = - 1"

definition RTT :: nat where
  "RTT = 16"

record pkt =
  seqnum :: cint
  acknum :: cint
  checksum :: cint
  payload :: "byte list"

record msg =
  data :: "byte list"

datatype entity = A | B

datatype call =
    tolayer3 entity pkt
  | tolayer5 entity "byte list"
  | starttimer entity nat
  | stoptimer entity

datatype fault = OutOfBounds

text \<open>C's \<^verbatim>\<open>%\<close> truncates towards zero: the remainder has the sign of the dividend.\<close>

definition c_mod :: "int \<Rightarrow> int \<Rightarrow> int" where
  "c_mod a b = sgn a * (\<bar>a\<bar> mod \<bar>b\<bar>)"

text \<open>Reading and writing one element of an array.\<close>

definition rd :: "'a list \<Rightarrow> int \<Rightarrow> fault + 'a" where
  "rd xs i = (if 0 \<le> i \<and> i < int (length xs) then Inr (xs ! nat i) else Inl OutOfBounds)"

definition wr :: "'a list \<Rightarrow> int \<Rightarrow> 'a \<Rightarrow> fault + 'a list" where
  "wr xs i v = (if 0 \<le> i \<and> i < int (length xs) then Inr (xs[nat i := v]) else Inl OutOfBounds)"

subsection \<open>Checksum\<close>

text \<open>
  \<^verbatim>\<open>ComputeChecksum\<close>: the sum starts at \<^verbatim>\<open>seqnum + acknum\<close> and the loop over
  \<^verbatim>\<open>i = 0 .. 19\<close> adds \<^verbatim>\<open>(unsigned char)p.payload[i]\<close>.
\<close>

definition ComputeChecksum :: "pkt \<Rightarrow> cint" where
  "ComputeChecksum p =
     foldl (\<lambda>sum i. sum + ucast (payload p ! i)) (seqnum p + acknum p) [0..<20]"

definition IsCorrupted :: "pkt \<Rightarrow> int" where
  "IsCorrupted p = (if checksum p \<noteq> ComputeChecksum p then 1 else 0)"

text \<open>
  The variant \<^verbatim>\<open>src/ass2/sr.c\<close> adds \<^verbatim>\<open>(int)packet.payload[i]\<close>: the byte is read
  through plain \<^verbatim>\<open>char\<close>, whose signedness the C implementation chooses.
\<close>

definition ass2_ComputeChecksum :: "bool \<Rightarrow> pkt \<Rightarrow> cint" where
  "ass2_ComputeChecksum char_signed p =
     foldl (\<lambda>sum i. sum + (if char_signed then scast (payload p ! i) else ucast (payload p ! i)))
       (seqnum p + acknum p) [0..<20]"

subsection \<open>Sender (A)\<close>

text \<open>
  The sender's static variables, the three counters of the emulator that the sender
  increments, and the calls it has made to the emulator.
\<close>

record sender =
  A_window :: "pkt list"
  A_acked :: "bool list"
  A_timer_running :: "bool list"
  A_base :: int
  A_nextseq :: int
  window_full :: int
  total_ACKs_received :: int
  packets_resent :: int
  A_calls :: "call list"

text \<open>
  \<^verbatim>\<open>A_init\<close> resets the two counters and clears both flag arrays, one index after
  the other; it leaves \<^verbatim>\<open>A_window\<close> as it is.
\<close>

definition A_init :: "sender \<Rightarrow> sender" where
  "A_init s =
     foldl (\<lambda>t i. t\<lparr>A_acked := (A_acked t)[i := False],
                       A_timer_running := (A_timer_running t)[i := False]\<rparr>)
       (s\<lparr>A_base := 0, A_nextseq := 0\<rparr>) [0..<nat WINDOWSIZE]"

text \<open>
  \<^verbatim>\<open>A_output\<close>. The unit is built with its checksum field still unset (0 here;
  \<^verbatim>\<open>ComputeChecksum\<close> does not read it). The statements run in the order of the source:
  the writes of \<^verbatim>\<open>A_window[seq]\<close> and \<^verbatim>\<open>A_acked[seq]\<close>, \<^verbatim>\<open>tolayer3\<close>, the test of
  \<^verbatim>\<open>A_timer_running[seq]\<close>, and the write of that flag, which is at the index just read.
\<close>

definition A_output :: "msg \<Rightarrow> sender \<Rightarrow> fault + sender" where
  "A_output message s =
     (if A_nextseq s < A_base s + WINDOWSIZE then
        (let seq = c_mod (A_nextseq s) SEQSPACE;
             p0 = \<lparr>seqnum = word_of_int seq, acknum = NOTINUSE, checksum = 0,
                   payload = take 20 (data message)\<rparr>;
             p = p0\<lparr>checksum := ComputeChecksum p0\<rparr>
         in case wr (A_window s) seq p of
              Inl e \<Rightarrow> Inl e
            | Inr w \<Rightarrow>
               (case wr (A_acked s) seq False of
                  Inl e \<Rightarrow> Inl e
                | Inr a \<Rightarrow>
                   (let s1 = s\<lparr>A_window := w, A_acked := a,
                                 A_calls := A_calls s @ [tolayer3 A p]\<rparr>
                    in case rd (A_timer_running s1) seq of
                         Inl e \<Rightarrow> Inl e
                       | Inr t \<Rightarrow>
                          (let s2 = (if \<not> t
                                     then s1\<lparr>A_calls := A_calls s1 @ [starttimer A RTT],
                                             A_timer_running :=
                                               (A_timer_running s1)[nat seq := True]\<rparr>
                                     else s1)
                           in Inr (s2\<lparr>A_nextseq := A_nextseq s2 + 1\<rparr>)))))
      else Inr (s\<lparr>window_full := window_full s + 1\<rparr>))"

text \<open>
  The inner loop of \<^verbatim>\<open>A_input\<close>:
  \<^verbatim>\<open>while (A_acked[A_base % SEQSPACE]) { A_acked[A_base % SEQSPACE] = 0; A_base++; }\<close>
\<close>

lemma clear_flag_fewer:
  "i < length xs \<Longrightarrow> xs ! i \<Longrightarrow>
   length (filter id (xs[i := False])) < length (filter id xs)"
proof (induction xs arbitrary: i)
  case Nil
  then show ?case by simp
next
  case (Cons x xs)
  then show ?case by (cases i) auto
qed

function A_slide :: "sender \<Rightarrow> fault + sender" where
  "A_slide s =
     (case rd (A_acked s) (c_mod (A_base s) SEQSPACE) of
        Inl e \<Rightarrow> Inl e
      | Inr b \<Rightarrow>
         if b then
           (case wr (A_acked s) (c_mod (A_base s) SEQSPACE) False of
              Inl e \<Rightarrow> Inl e
            | Inr a \<Rightarrow> A_slide (s\<lparr>A_acked := a, A_base := A_base s + 1\<rparr>))
         else Inr s)"
  by pat_completeness auto
termination
  by (relation "measure (\<lambda>s. length (filter id (A_acked s)))")
     (auto simp: rd_def wr_def split: if_splits intro!: clear_flag_fewer)

text \<open>The body of the \<^verbatim>\<open>for\<close> loop of \<^verbatim>\<open>A_input\<close> once \<^verbatim>\<open>ack == i % SEQSPACE\<close>.\<close>

definition A_ack_slot :: "int \<Rightarrow> sender \<Rightarrow> fault + sender" where
  "A_ack_slot idx s =
     (case rd (A_acked s) idx of
        Inl e \<Rightarrow> Inl e
      | Inr b \<Rightarrow>
         if \<not> b then
           (case wr (A_acked s) idx True of
              Inl e \<Rightarrow> Inl e
            | Inr a \<Rightarrow>
               (let s1 = s\<lparr>A_acked := a,
                             total_ACKs_received := total_ACKs_received s + 1\<rparr>
                in case rd (A_timer_running s1) idx of
                     Inl e \<Rightarrow> Inl e
                   | Inr t \<Rightarrow>
                      A_slide (if t
                               then s1\<lparr>A_calls := A_calls s1 @ [stoptimer A],
                                       A_timer_running :=
                                         (A_timer_running s1)[nat idx := False]\<rparr>
                               else s1)))
         else Inr s)"

text \<open>
  \<^verbatim>\<open>for (i = A_base; i < A_nextseq; i++) if (ack == (i % SEQSPACE)) { ...; break; }\<close>
\<close>

function A_input_for :: "int \<Rightarrow> int \<Rightarrow> sender \<Rightarrow> fault + sender" where
  "A_input_for ack i s =
     (if i < A_nextseq s then
        (if ack = c_mod i SEQSPACE then A_ack_slot ack s
         else A_input_for ack (i + 1) s)
      else Inr s)"
  by pat_completeness auto
termination
  by (relation "measure (\<lambda>(ack, i, s). nat (A_nextseq s - i))") auto

definition A_input :: "pkt \<Rightarrow> sender \<Rightarrow> fault + sender" where
  "A_input packet s =
     (if IsCorrupted packet \<noteq> 0 then Inr s
      else A_input_for (sint (acknum packet)) (A_base s) s)"

text \<open>The loop of \<^verbatim>\<open>A_timerinterrupt\<close>, from index \<open>i\<close> on.\<close>

function A_timer_for :: "int \<Rightarrow> sender \<Rightarrow> fault + sender" where
  "A_timer_for i s =
     (if i < A_nextseq s then
        (case rd (A_acked s) (c_mod i SEQSPACE) of
           Inl e \<Rightarrow> Inl e
         | Inr b \<Rightarrow>
            if \<not> b then
              (case rd (A_window s) (c_mod i SEQSPACE) of
                 Inl e \<Rightarrow> Inl e
               | Inr p \<Rightarrow>
                  (case rd (A_timer_running s) (c_mod i SEQSPACE) of
                     Inl e \<Rightarrow> Inl e
                   | Inr t \<Rightarrow>
                      A_timer_for (i + 1)
                        (s\<lparr>A_calls := A_calls s @ [tolayer3 A p]
                               @ (if t then [stoptimer A] else []) @ [starttimer A RTT],
                           packets_resent := packets_resent s + 1,
                           A_timer_running :=
                             (A_timer_running s)[nat (c_mod i SEQSPACE) := True]\<rparr>)))
            else A_timer_for (i + 1) s)
      else Inr s)"
  by pat_completeness auto
termination
  by (relation "measure (\<lambda>(i, s). nat (A_nextseq s - i))") auto

definition A_timerinterrupt :: "sender \<Rightarrow> fault + sender" where
  "A_timerinterrupt s = A_timer_for (A_base s) s"

subsection \<open>Receiver (B)\<close>

record receiver =
  B_buffer :: "pkt list"
  B_received :: "bool list"
  B_base :: int
  B_calls :: "call list"

definition B_init :: "receiver \<Rightarrow> receiver" where
  "B_init r =
     foldl (\<lambda>t i. t\<lparr>B_received := (B_received t)[i := False]\<rparr>)
       (r\<lparr>B_base := 0\<rparr>) [0..<nat WINDOWSIZE]"

text \<open>
  The window test of \<^verbatim>\<open>B_input\<close>:
  \<^verbatim>\<open>for (i = B_base; i < B_base + WINDOWSIZE; i++)
     if (packet.seqnum == (i % SEQSPACE)) { inWindow = 1; break; }\<close>
  with \<open>hi\<close> for \<^verbatim>\<open>B_base + WINDOWSIZE\<close>; the result is \<^verbatim>\<open>inWindow\<close>.
\<close>

function B_inWindow_for :: "int \<Rightarrow> int \<Rightarrow> int \<Rightarrow> int" where
  "B_inWindow_for sq i hi =
     (if i < hi then (if sq = c_mod i SEQSPACE then 1 else B_inWindow_for sq (i + 1) hi)
      else 0)"
  by pat_completeness auto
termination
  by (relation "measure (\<lambda>(sq, i, hi). nat (hi - i))") auto

text \<open>
  The delivery loop of \<^verbatim>\<open>B_input\<close>:
  \<^verbatim>\<open>while (B_received[B_base % SEQSPACE]) { idx = B_base % SEQSPACE;
     tolayer5(B, B_buffer[idx].payload); B_received[idx] = 0; B_base++; }\<close>
\<close>

function B_deliver :: "receiver \<Rightarrow> fault + receiver" where
  "B_deliver r =
     (case rd (B_received r) (c_mod (B_base r) SEQSPACE) of
        Inl e \<Rightarrow> Inl e
      | Inr b \<Rightarrow>
         if b then
           (case rd (B_buffer r) (c_mod (B_base r) SEQSPACE) of
              Inl e \<Rightarrow> Inl e
            | Inr p \<Rightarrow>
               B_deliver
                 (r\<lparr>B_calls := B_calls r @ [tolayer5 B (payload p)],
                    B_received := (B_received r)[nat (c_mod (B_base r) SEQSPACE) := False],
                    B_base := B_base r + 1\<rparr>))
         else Inr r)"
  by pat_completeness auto
termination
  by (relation "measure (\<lambda>r. length (filter id (B_received r)))")
     (auto simp: rd_def split: if_splits intro!: clear_flag_fewer)

text \<open>The acknowledgment \<^verbatim>\<open>B_input\<close> builds for acknowledgment number \<open>a\<close>.\<close>

definition ackpkt_for :: "cint \<Rightarrow> pkt" where
  "ackpkt_for a =
     (let p0 = \<lparr>seqnum = NOTINUSE, acknum = a, checksum = 0, payload = replicate 20 0\<rparr>
      in p0\<lparr>checksum := ComputeChecksum p0\<rparr>)"

definition B_input :: "pkt \<Rightarrow> receiver \<Rightarrow> fault + receiver" where
  "B_input packet r =
     (let ackpkt = ackpkt_for (seqnum packet);
          inWindow = B_inWindow_for (sint (seqnum packet)) (B_base r) (B_base r + WINDOWSIZE)
      in case
           (if IsCorrupted packet = 0 \<and> inWindow \<noteq> 0 then
              (let idx = sint (seqnum packet)
               in case rd (B_received r) idx of
                    Inl e \<Rightarrow> Inl e
                  | Inr b \<Rightarrow>
                     (case (if \<not> b then
                              (case wr (B_buffer r) idx packet of
                                 Inl e \<Rightarrow> Inl e
                               | Inr bf \<Rightarrow>
                                  Inr (r\<lparr>B_buffer := bf,
                                         B_received := (B_received r)[nat idx := True]\<rparr>))
                            else Inr r) of
                        Inl e \<Rightarrow> Inl e
                      | Inr r1 \<Rightarrow> Inr (r1\<lparr>B_calls := B_calls r1 @ [tolayer3 B ackpkt]\<rparr>)))
            else
              (let lastack = (if B_base r = 0 then SEQSPACE - 1
                              else c_mod (B_base r - 1) SEQSPACE);
                   ack1 = ackpkt\<lparr>acknum := word_of_int lastack\<rparr>;
                   ack2 = ack1\<lparr>checksum := ComputeChecksum ack1\<rparr>
               in Inr (r\<lparr>B_calls := B_calls r @ [tolayer3 B ack2]\<rparr>)))
         of
           Inl e \<Rightarrow> Inl e
         | Inr r2 \<Rightarrow> B_deliver r2)"

text \<open>The loops are unfolded one iteration at a time, by hand.\<close>

declare A_slide.simps [simp del]
declare A_input_for.simps [simp del]
declare A_timer_for.simps [simp del]
declare B_inWindow_for.simps [simp del]
declare B_deliver.simps [simp del]

subsection \<open>Runs\<close>

text \<open>
  The emulator calls the entry points one at a time. A run of an endpoint is the list
  of its calls after the endpoint's initialisation; it stops at the first fault.
\<close>

datatype A_event = Output msg | Ack_arrival pkt | Timeout

fun A_step :: "A_event \<Rightarrow> sender \<Rightarrow> fault + sender" where
  "A_step (Output m) s = A_output m s"
| "A_step (Ack_arrival p) s = A_input p s"
| "A_step Timeout s = A_timerinterrupt s"

fun A_run :: "A_event list \<Rightarrow> sender \<Rightarrow> fault + sender" where
  "A_run [] s = Inr s"
| "A_run (e # es) s = (case A_step e s of Inl f \<Rightarrow> Inl f | Inr s' \<Rightarrow> A_run es s')"

fun B_run :: "pkt list \<Rightarrow> receiver \<Rightarrow> fault + receiver" where
  "B_run [] r = Inr r"
| "B_run (p # ps) r = (case B_input p r of Inl f \<Rightarrow> Inl f | Inr r' \<Rightarrow> B_run ps r')"

text \<open>
  The static storage of a C program starts zeroed: every flag clear, every counter 0,
  every buffered unit all zero.
\<close>

definition zero_pkt :: pkt where
  "zero_pkt = \<lparr>seqnum = 0, acknum = 0, checksum = 0, payload = replicate 20 0\<rparr>"

definition A_static :: sender where
  "A_static = \<lparr>A_window = replicate 6 zero_pkt, A_acked = replicate 6 False,
       A_timer_running = replicate 6 False, A_base = 0, A_nextseq = 0, window_full = 0,
       total_ACKs_received = 0, packets_resent = 0, A_calls = []\<rparr>"

definition B_static :: receiver where
  "B_static = \<lparr>B_buffer = replicate 6 zero_pkt, B_received = replicate 6 False,
       B_base = 0, B_calls = []\<rparr>"

text \<open>
  A message filled with one byte, and a data unit as \<^verbatim>\<open>A_output\<close> builds it for
  sequence number \<open>n\<close> and payload \<open>d\<close>.
\<close>

definition msg_of :: "byte \<Rightarrow> msg" where
  "msg_of c = \<lparr>data = replicate 20 c\<rparr>"

definition datapkt :: "cint \<Rightarrow> byte list \<Rightarrow> pkt" where
  "datapkt n d =
     (let p0 = \<lparr>seqnum = n, acknum = NOTINUSE, checksum = 0, payload = take 20 d\<rparr>
      in p0\<lparr>checksum := ComputeChecksum p0\<rparr>)"

subsection \<open>Observations on the calls made\<close>

text \<open>The payloads handed to layer 5 and the units handed to layer 3, in order.\<close>

fun delivered :: "call list \<Rightarrow> byte list list" where
  "delivered [] = []"
| "delivered (tolayer5 e d # cs) = d # delivered cs"
| "delivered (c # cs) = delivered cs"

fun sent :: "call list \<Rightarrow> pkt list" where
  "sent [] = []"
| "sent (tolayer3 e p # cs) = p # sent cs"
| "sent (c # cs) = sent cs"

text \<open>
  Modelled from the spec: the timer primitive of the emulator, which is not part of the
  sources. It is one alarm per endpoint: \<^verbatim>\<open>starttimer\<close> arms it, \<^verbatim>\<open>stoptimer\<close>
  disarms it (a no-op when it is not armed), and it stays armed in between unless it
  fires, which calls \<^verbatim>\<open>A_timerinterrupt\<close>. \<open>started_while_running t cs\<close> says
  whether, with the alarm armed or not (\<open>t\<close>) before the calls \<open>cs\<close> and no
  firing during them, some \<^verbatim>\<open>starttimer\<close> among them meets an armed alarm.
\<close>

fun started_while_running :: "bool \<Rightarrow> call list \<Rightarrow> bool" where
  "started_while_running running [] = False"
| "started_while_running running (starttimer e d # cs) =
     (running \<or> started_while_running True cs)"
| "started_while_running running (stoptimer e # cs) = started_while_running False cs"
| "started_while_running running (c # cs) = started_while_running running cs"

text \<open>
  What one iteration of the loop of \<^verbatim>\<open>A_timerinterrupt\<close> calls for an unacknowledged
  slot \<open>j\<close>, and the test it makes.
\<close>

definition resend_calls :: "sender \<Rightarrow> int \<Rightarrow> call list" where
  "resend_calls s j =
     tolayer3 A (A_window s ! nat j)
       # (if A_timer_running s ! nat j then [stoptimer A] else []) @ [starttimer A RTT]"

definition unacked :: "sender \<Rightarrow> int \<Rightarrow> bool" where
  "unacked s j = (\<not> A_acked s ! nat j)"

subsection \<open>Invariants of the runs that do not fault\<close>

definition B_inv :: "receiver \<Rightarrow> bool" where
  "B_inv r = (length (B_buffer r) = 6 \<and> length (B_received r) = 6
      \<and> 0 \<le> B_base r \<and> B_base r \<le> 5 \<and> \<not> B_received r ! nat (B_base r))"

definition A_inv :: "sender \<Rightarrow> bool" where
  "A_inv s = (length (A_window s) = 6 \<and> length (A_acked s) = 6
      \<and> length (A_timer_running s) = 6
      \<and> 0 \<le> A_base s \<and> A_base s \<le> A_nextseq s \<and> A_nextseq s \<le> 6 \<and> A_base s \<le> 5
      \<and> (\<forall>j. 0 \<le> j \<and> j < 6 \<and> A_acked s ! nat j \<longrightarrow> A_base s \<le> j \<and> j < A_nextseq s)
      \<and> (\<forall>j. A_base s \<le> j \<and> j < A_nextseq s \<and> \<not> A_acked s ! nat j
             \<longrightarrow> A_timer_running s ! nat j))"

text \<open>
  What the receiver's state records of the units \<open>P\<close> it has been given: a slot
  marked received holds an uncorrupted unit of \<open>P\<close> with the slot's sequence number,
  and the \<open>n\<close>-th payload delivered is that of an uncorrupted unit of \<open>P\<close> with
  sequence number \<open>n\<close>.
\<close>

definition B_hist :: "pkt set \<Rightarrow> receiver \<Rightarrow> bool" where
  "B_hist P r =
     ((\<forall>k. 0 \<le> k \<and> k < 6 \<and> B_received r ! nat k \<longrightarrow>
          B_buffer r ! nat k \<in> P \<and> IsCorrupted (B_buffer r ! nat k) = 0
          \<and> sint (seqnum (B_buffer r ! nat k)) = k)
      \<and> (\<forall>n. n < length (delivered (B_calls r)) \<longrightarrow>
          (\<exists>p \<in> P. IsCorrupted p = 0 \<and> sint (seqnum p) = int n
              \<and> payload p = delivered (B_calls r) ! n))
      \<and> int (length (delivered (B_calls r))) = B_base r)"

section \<open>Properties\<close>

subsection \<open>Arithmetic\<close>

lemma c_mod_nonneg: "0 \<le> a \<Longrightarrow> c_mod a SEQSPACE = a mod 7"
  by (simp add: c_mod_def SEQSPACE_def sgn_if)

lemma c_mod_SEQSPACE: "0 \<le> a \<Longrightarrow> c_mod a SEQSPACE = a mod SEQSPACE"
  by (simp add: c_mod_def SEQSPACE_def sgn_if)

lemma c_mod_small: "0 \<le> a \<Longrightarrow> a < 7 \<Longrightarrow> c_mod a SEQSPACE = a"
  by (simp add: c_mod_nonneg)

lemma sint_small: "0 \<le> x \<Longrightarrow> x \<le> 6 \<Longrightarrow> sint (word_of_int x :: cint) = x"
  by (simp add: int_word_sint)

subsection \<open>Checksum\<close>

lemma foldl_add_sum:
  "foldl (\<lambda>s i. s + f i) a xs = (a::cint) + sum_list (map f xs)"
  by (induction xs arbitrary: a) (simp_all add: add.assoc)

lemma ComputeChecksum_sum:
  "ComputeChecksum p
     = seqnum p + acknum p + (\<Sum>i = 0..<20. word_of_nat (unat (payload p ! i)))"
proof -
  have "ComputeChecksum p
      = seqnum p + acknum p + sum_list (map (\<lambda>i. ucast (payload p ! i)) [0..<20])"
    unfolding ComputeChecksum_def by (rule foldl_add_sum)
  also have "sum_list (map (\<lambda>i. ucast (payload p ! i) :: cint) [0..<20])
      = (\<Sum>i = 0..<20. word_of_nat (unat (payload p ! i)))"
    by (simp add: interv_sum_list_conv_sum_set_nat)
  finally show ?thesis .
qed

text \<open>
  C7. \<^verbatim>\<open>ComputeChecksum p\<close> is \<^verbatim>\<open>p.seqnum + p.acknum\<close> plus the sum of the twenty
  payload bytes, each read as an unsigned value between 0 and 255, in the 32-bit
  arithmetic of C's \<^verbatim>\<open>int\<close>; \<^verbatim>\<open>IsCorrupted p\<close> is true (nonzero) exactly when
  \<^verbatim>\<open>p.checksum\<close> differs from \<^verbatim>\<open>ComputeChecksum p\<close>. Both are functions of the unit
  alone: they take no state and return none.
\<close>

theorem ComputeChecksum_IsCorrupted_spec:
  "ComputeChecksum p
     = seqnum p + acknum p + (\<Sum>i = 0..<20. word_of_nat (unat (payload p ! i)))
   \<and> unat (payload p ! i) \<le> 255
   \<and> (IsCorrupted p \<noteq> 0) = (checksum p \<noteq> ComputeChecksum p)"
proof -
  have "unat (payload p ! i) < 2 ^ LENGTH(8)"
    by (rule unsigned_less)
  then have byte_le: "unat (payload p ! i) \<le> 255"
    by simp
  have "(IsCorrupted p \<noteq> 0) = (checksum p \<noteq> ComputeChecksum p)"
    by (simp add: IsCorrupted_def)
  with ComputeChecksum_sum[of p] byte_le show ?thesis
    by blast
qed

text \<open>
  Read as integers: where the sum of the signed fields and the unsigned bytes fits
  C's \<^verbatim>\<open>int\<close>, the checksum is that sum.
\<close>

lemma ComputeChecksum_int:
  assumes "- (2 ^ 31) \<le> sint (seqnum p) + sint (acknum p) + (\<Sum>i = 0..<20. int (unat (payload p ! i)))"
    and "sint (seqnum p) + sint (acknum p) + (\<Sum>i = 0..<20. int (unat (payload p ! i))) < 2 ^ 31"
  shows "sint (ComputeChecksum p)
     = sint (seqnum p) + sint (acknum p) + (\<Sum>i = 0..<20. int (unat (payload p ! i)))"
proof -
  let ?S = "sint (seqnum p) + sint (acknum p) + (\<Sum>i = 0..<20. int (unat (payload p ! i)))"
  have "ComputeChecksum p
      = seqnum p + acknum p + (\<Sum>i = 0..<20. word_of_nat (unat (payload p ! i)))"
    using ComputeChecksum_sum by simp
  also have "\<dots> = word_of_int ?S"
    by (simp add: of_int_sum)
  finally have "sint (ComputeChecksum p) = signed_take_bit 31 ?S"
    by (simp only: sint_sbintrunc') simp
  also have "\<dots> = ?S"
    using assms by (intro signed_take_bit_int_eq_self) simp_all
  finally show ?thesis .
qed

lemma ComputeChecksum_checksum_update [simp]:
  "ComputeChecksum (p\<lparr>checksum := c\<rparr>) = ComputeChecksum p"
  by (simp add: ComputeChecksum_def)

lemma ackpkt_for_update:
  "(ackpkt_for a)\<lparr>acknum := b, checksum := ComputeChecksum ((ackpkt_for a)\<lparr>acknum := b\<rparr>)\<rparr>
     = ackpkt_for b"
  by (simp add: ackpkt_for_def Let_def ComputeChecksum_def)

lemma acknum_ackpkt_for: "acknum (ackpkt_for a) = a"
  by (simp add: ackpkt_for_def Let_def)

text \<open>
  An acknowledgment as \<^verbatim>\<open>B_input\<close> builds it has \<^verbatim>\<open>seqnum = NOTINUSE\<close>, twenty zero
  bytes of payload and the checksum of its own fields: unless the channel changes
  it, \<^verbatim>\<open>IsCorrupted\<close> is 0 for it.
\<close>

lemma ackpkt_for_fields:
  "seqnum (ackpkt_for a) = NOTINUSE" "payload (ackpkt_for a) = replicate 20 0"
  "checksum (ackpkt_for a) = ComputeChecksum (ackpkt_for a)" "IsCorrupted (ackpkt_for a) = 0"
  by (simp_all add: ackpkt_for_def Let_def IsCorrupted_def ComputeChecksum_def)

text \<open>
  The checksum of the variant is the one above where \<^verbatim>\<open>char\<close> is unsigned, and
  differs from it for a payload byte above 127 where \<^verbatim>\<open>char\<close> is signed.
\<close>

lemma ass2_ComputeChecksum_unsigned: "ass2_ComputeChecksum False p = ComputeChecksum p"
  by (simp add: ass2_ComputeChecksum_def ComputeChecksum_def)

lemma ass2_ComputeChecksum_signed_differs:
  "ComputeChecksum (datapkt 0 (replicate 20 200)) = 3999
   \<and> sint (ass2_ComputeChecksum True (datapkt 0 (replicate 20 200))) = - 1121"
  by code_simp

subsection \<open>The receiver's loops and invariant\<close>

lemma B_init_static: "B_init B_static = B_static"
  by code_simp

lemma B_inv_init: "B_inv (B_init B_static)"
  by code_simp

lemma B_deliver_inv:
  "length (B_buffer r) = 6 \<Longrightarrow> length (B_received r) = 6 \<Longrightarrow> 0 \<le> B_base r \<Longrightarrow>
   B_base r \<le> 6 \<Longrightarrow> B_deliver r = Inr r' \<Longrightarrow> B_inv r' \<and> B_base r \<le> B_base r'"
proof (induction r rule: B_deliver.induct)
  case (1 r)
  from "1.prems"(3,4) have m: "c_mod (B_base r) SEQSPACE = B_base r mod 7"
    by (simp add: c_mod_nonneg)
  show ?case
  proof (cases "B_base r = 6")
    case True
    with "1.prems" m show ?thesis
      by (subst (asm) B_deliver.simps) (simp add: rd_def)
  next
    case False
    with "1.prems" have le5: "B_base r \<le> 5" by simp
    with "1.prems" have idx: "B_base r mod 7 = B_base r" by simp
    show ?thesis
    proof (cases "B_received r ! nat (B_base r)")
      case True
      let ?r1 = "r\<lparr>B_calls := B_calls r @ [tolayer5 B (payload (B_buffer r ! nat (B_base r)))],
                    B_received := (B_received r)[nat (B_base r) := False],
                    B_base := B_base r + 1\<rparr>"
      from True "1.prems" le5 m idx have step: "B_deliver r = B_deliver ?r1"
        by (subst B_deliver.simps) (simp add: rd_def)
      have rdr: "rd (B_received r) (c_mod (B_base r) SEQSPACE) = Inr True"
        using True "1.prems" le5 m idx by (simp add: rd_def)
      have rdb: "rd (B_buffer r) (c_mod (B_base r) SEQSPACE) = Inr (B_buffer r ! nat (B_base r))"
        using "1.prems" le5 m idx by (simp add: rd_def)
      have "B_inv r' \<and> B_base ?r1 \<le> B_base r'"
        using "1.IH"[OF rdr _ rdb] "1.prems" le5 step m idx by simp
      then show ?thesis by simp
    next
      case False
      with "1.prems" le5 m idx have "B_deliver r = Inr r"
        by (subst B_deliver.simps) (simp add: rd_def)
      with "1.prems" False le5 show ?thesis
        by (simp add: B_inv_def)
    qed
  qed
qed

lemma B_deliver_idle:
  "length (B_received r) = 6 \<Longrightarrow> 0 \<le> B_base r \<Longrightarrow> B_base r \<le> 5 \<Longrightarrow>
   \<not> B_received r ! nat (B_base r) \<Longrightarrow> B_deliver r = Inr r"
  by (subst B_deliver.simps) (simp add: rd_def c_mod_nonneg)

lemma B_inWindow_for_iff:
  "(B_inWindow_for sq i hi \<noteq> 0) = (\<exists>j. i \<le> j \<and> j < hi \<and> sq = c_mod j SEQSPACE)"
proof (induction sq i hi rule: B_inWindow_for.induct)
  case (1 sq i hi)
  show ?case
  proof (cases "i < hi")
    case True
    show ?thesis
    proof (cases "sq = c_mod i SEQSPACE")
      case True
      with \<open>i < hi\<close> show ?thesis
        by (subst B_inWindow_for.simps) auto
    next
      case False
      have "(\<exists>j. i \<le> j \<and> j < hi \<and> sq = c_mod j SEQSPACE)
          = (\<exists>j. i + 1 \<le> j \<and> j < hi \<and> sq = c_mod j SEQSPACE)"
      proof
        assume "\<exists>j. i \<le> j \<and> j < hi \<and> sq = c_mod j SEQSPACE"
        then obtain j where j: "i \<le> j" "j < hi" "sq = c_mod j SEQSPACE" by blast
        with False have "j \<noteq> i" by auto
        with j show "\<exists>j. i + 1 \<le> j \<and> j < hi \<and> sq = c_mod j SEQSPACE"
          by (intro exI[of _ j]) simp
      next
        assume "\<exists>j. i + 1 \<le> j \<and> j < hi \<and> sq = c_mod j SEQSPACE"
        then obtain j where "i + 1 \<le> j" "j < hi" "sq = c_mod j SEQSPACE" by blast
        then show "\<exists>j. i \<le> j \<and> j < hi \<and> sq = c_mod j SEQSPACE"
          by (intro exI[of _ j]) simp
      qed
      with "1.IH"[OF True False] True False show ?thesis
        by (subst B_inWindow_for.simps) simp
    qed
  next
    case False
    then show ?thesis
      by (subst B_inWindow_for.simps) auto
  qed
qed

lemma B_input_reject:
  assumes "IsCorrupted p \<noteq> 0 \<or> B_inWindow_for (sint (seqnum p)) (B_base r) (B_base r + WINDOWSIZE) = 0"
  shows "B_input p r = B_deliver (r\<lparr>B_calls := B_calls r @
           [tolayer3 B (ackpkt_for (word_of_int
              (if B_base r = 0 then SEQSPACE - 1 else c_mod (B_base r - 1) SEQSPACE)))]\<rparr>)"
  using assms unfolding B_input_def Let_def
  by (auto simp: ackpkt_for_update)

lemma B_input_accept:
  assumes "IsCorrupted p = 0" 
    and "B_inWindow_for (sint (seqnum p)) (B_base r) (B_base r + WINDOWSIZE) \<noteq> 0"
    and "0 \<le> sint (seqnum p)" and "sint (seqnum p) < 6" 
    and "length (B_buffer r) = 6" and "length (B_received r) = 6"
  shows "B_input p r = B_deliver
     ((if B_received r ! nat (sint (seqnum p)) then r
       else r\<lparr>B_buffer := (B_buffer r)[nat (sint (seqnum p)) := p],
              B_received := (B_received r)[nat (sint (seqnum p)) := True]\<rparr>)
      \<lparr>B_calls := B_calls r @ [tolayer3 B (ackpkt_for (seqnum p))]\<rparr>)"
  using assms unfolding B_input_def Let_def
  by (simp add: rd_def wr_def)

lemma B_input_fault:
  assumes "IsCorrupted p = 0" 
    and "B_inWindow_for (sint (seqnum p)) (B_base r) (B_base r + WINDOWSIZE) \<noteq> 0"
    and "\<not> (0 \<le> sint (seqnum p) \<and> sint (seqnum p) < 6)" 
    and "length (B_received r) = 6"
  shows "B_input p r = Inl OutOfBounds"
proof -
  from assms(3,4) have "rd (B_received r) (sint (seqnum p)) = Inl OutOfBounds"
    by (auto simp: rd_def)
  with assms(1,2) show ?thesis
    unfolding B_input_def Let_def by simp
qed

lemma B_input_inv: 
  assumes "B_inv r" and "B_input p r = Inr r'"
  shows "B_inv r'"
proof (cases "IsCorrupted p \<noteq> 0 \<or> B_inWindow_for (sint (seqnum p)) (B_base r) (B_base r + WINDOWSIZE) = 0")
  case True
  from assms(2) show ?thesis
    unfolding B_input_reject[OF True]
    by (rule B_deliver_inv[rotated 4, THEN conjunct1]) (use assms(1) in \<open>simp_all add: B_inv_def\<close>)
next
  case False
  then have a: "IsCorrupted p = 0" 
    "B_inWindow_for (sint (seqnum p)) (B_base r) (B_base r + WINDOWSIZE) \<noteq> 0" by auto
  from assms(1) have len: "length (B_buffer r) = 6" "length (B_received r) = 6"
    by (simp_all add: B_inv_def)
  show ?thesis
  proof (cases "0 \<le> sint (seqnum p) \<and> sint (seqnum p) < 6")
    case True
    then have b: "0 \<le> sint (seqnum p)" "sint (seqnum p) < 6" by auto
    from assms(2) show ?thesis
      unfolding B_input_accept[OF a b len]
      by (rule B_deliver_inv[rotated 4, THEN conjunct1]) (use assms(1) in \<open>simp_all add: B_inv_def\<close>)
  next
    case False
    from B_input_fault[OF a False len(2)] assms(2) show ?thesis by simp
  qed
qed

lemma B_run_inv: "B_inv r \<Longrightarrow> B_run ps r = Inr r' \<Longrightarrow> B_inv r'"
proof (induction ps arbitrary: r)
  case Nil
  then show ?case by simp
next
  case (Cons p ps)
  show ?case
  proof (cases "B_input p r")
    case (Inl f)
    with Cons.prems(2) show ?thesis by simp
  next
    case (Inr r1)
    with Cons.prems(1) have "B_inv r1" by (rule B_input_inv)
    moreover from Inr Cons.prems(2) have "B_run ps r1 = Inr r'" by simp
    ultimately show ?thesis by (rule Cons.IH)
  qed
qed

subsection \<open>Units the receiver does not accept\<close>

text \<open>
  C8. In any state the receiver reaches from \<^verbatim>\<open>B_init\<close> by calls of \<^verbatim>\<open>B_input\<close>
  that stay inside the arrays, a
  unit that is corrupted, or whose sequence number is outside
  \<open>[B_base, B_base + WINDOWSIZE)\<close> modulo \<open>SEQSPACE\<close>, is not buffered and sets no
  received flag: \<^verbatim>\<open>B_input\<close> returns with \<^verbatim>\<open>B_buffer\<close>, \<^verbatim>\<open>B_received\<close> and
  \<^verbatim>\<open>B_base\<close> as they were, and its one call is \<^verbatim>\<open>tolayer3\<close> of an acknowledgment
  whose \<^verbatim>\<open>acknum\<close> is \<open>(B_base - 1) mod SEQSPACE\<close>, which is \<open>SEQSPACE - 1\<close> when
  \<^verbatim>\<open>B_base\<close> is 0.
\<close>

theorem B_input_discards:
  assumes "B_run ps (B_init B_static) = Inr r"
    and "IsCorrupted p \<noteq> 0
       \<or> \<not> (\<exists>i. B_base r \<le> i \<and> i < B_base r + WINDOWSIZE \<and> sint (seqnum p) = i mod SEQSPACE)"
  shows "(\<exists>r' a. B_input p r = Inr r'
          \<and> B_buffer r' = B_buffer r \<and> B_received r' = B_received r \<and> B_base r' = B_base r
          \<and> B_calls r' = B_calls r @ [tolayer3 B a]
          \<and> seqnum a = NOTINUSE \<and> sint (acknum a) = (B_base r - 1) mod SEQSPACE
          \<and> IsCorrupted a = 0)
       \<and> (if B_base r = 0 then (B_base r - 1) mod SEQSPACE = SEQSPACE - 1
           else (B_base r - 1) mod SEQSPACE = B_base r - 1)"
proof -
  from B_run_inv[OF B_inv_init assms(1)] have inv: "B_inv r" .
  then have base: "0 \<le> B_base r" "B_base r \<le> 5"
    and len: "length (B_received r) = 6"
    and clear: "\<not> B_received r ! nat (B_base r)"
    by (simp_all add: B_inv_def)
  have win: "(B_inWindow_for (sint (seqnum p)) (B_base r) (B_base r + WINDOWSIZE) \<noteq> 0)
      = (\<exists>i. B_base r \<le> i \<and> i < B_base r + WINDOWSIZE \<and> sint (seqnum p) = i mod SEQSPACE)"
  proof -
    have "(\<exists>j. B_base r \<le> j \<and> j < B_base r + WINDOWSIZE \<and> sint (seqnum p) = c_mod j SEQSPACE)
        = (\<exists>i. B_base r \<le> i \<and> i < B_base r + WINDOWSIZE \<and> sint (seqnum p) = i mod SEQSPACE)"
      using base(1) by (intro ex_cong1) (auto simp: c_mod_SEQSPACE)
    then show ?thesis by (simp add: B_inWindow_for_iff)
  qed
  let ?l = "if B_base r = 0 then SEQSPACE - 1 else c_mod (B_base r - 1) SEQSPACE"
  let ?a = "ackpkt_for (word_of_int ?l)"
  let ?r1 = "r\<lparr>B_calls := B_calls r @ [tolayer3 B ?a]\<rparr>"
  have rej: "IsCorrupted p \<noteq> 0
       \<or> B_inWindow_for (sint (seqnum p)) (B_base r) (B_base r + WINDOWSIZE) = 0"
    using assms(2) win by auto
  have l: "?l = (B_base r - 1) mod SEQSPACE" and l6: "0 \<le> ?l" "?l \<le> 6"
    using base by (auto simp: c_mod_SEQSPACE) (simp_all add: SEQSPACE_def)
  have "B_input p r = B_deliver ?r1"
    by (rule B_input_reject[OF rej])
  also have "\<dots> = Inr ?r1"
    using len base clear by (intro B_deliver_idle) simp_all
  finally have res: "B_input p r = Inr ?r1" .
  have sa: "sint (acknum ?a) = (B_base r - 1) mod SEQSPACE"
  proof -
    have "sint (word_of_int ?l :: cint) = ?l"
      using l6 by (rule sint_small)
    then show ?thesis
      unfolding acknum_ackpkt_for l by simp
  qed
  have nc: "IsCorrupted ?a = 0"
    by (simp add: IsCorrupted_def ackpkt_for_def Let_def ComputeChecksum_def)
  have sq: "seqnum ?a = NOTINUSE"
    by (simp add: ackpkt_for_def Let_def)
  have wrap: "if B_base r = 0 then (B_base r - 1) mod SEQSPACE = SEQSPACE - 1
           else (B_base r - 1) mod SEQSPACE = B_base r - 1"
    using base by (simp add: SEQSPACE_def)
  from res sa nc sq wrap show ?thesis
    by (intro conjI exI[of _ ?r1] exI[of _ ?a]) simp_all
qed

text \<open>
  The theorem in the state after the unit 0 is delivered: a unit whose sequence number
  the channel changed and a stale copy of unit 0 are each answered with an
  acknowledgment for 0 and change nothing else.
\<close>

theorem B_input_discards_witness:
  "(case B_run [datapkt 0 (replicate 20 65)] (B_init B_static) of
      Inl f \<Rightarrow> False
    | Inr r \<Rightarrow>
        B_base r = 1
        \<and> IsCorrupted ((datapkt 1 (replicate 20 65))\<lparr>seqnum := 999999\<rparr>) = 1
        \<and> (\<exists>r' a. B_input ((datapkt 1 (replicate 20 65))\<lparr>seqnum := 999999\<rparr>) r = Inr r'
              \<and> B_buffer r' = B_buffer r \<and> B_received r' = B_received r
              \<and> B_base r' = B_base r \<and> B_calls r' = B_calls r @ [tolayer3 B a]
              \<and> seqnum a = NOTINUSE \<and> sint (acknum a) = 0 \<and> IsCorrupted a = 0)
        \<and> IsCorrupted (datapkt 0 (replicate 20 66)) = 0
        \<and> (\<exists>r' a. B_input (datapkt 0 (replicate 20 66)) r = Inr r'
              \<and> B_buffer r' = B_buffer r \<and> B_received r' = B_received r
              \<and> B_base r' = B_base r \<and> B_calls r' = B_calls r @ [tolayer3 B a]
              \<and> seqnum a = NOTINUSE \<and> sint (acknum a) = 0 \<and> IsCorrupted a = 0))"
proof -
  let ?bad = "(datapkt 1 (replicate 20 65))\<lparr>seqnum := 999999\<rparr>"
  let ?old = "datapkt 0 (replicate 20 66)"
  have run: "(case B_run [datapkt 0 (replicate 20 65)] (B_init B_static) of
      Inl f \<Rightarrow> False | Inr r \<Rightarrow> B_base r = 1)"
    by code_simp
  then obtain r where r: "B_run [datapkt 0 (replicate 20 65)] (B_init B_static) = Inr r"
    and base: "B_base r = 1"
    by (cases "B_run [datapkt 0 (replicate 20 65)] (B_init B_static)") simp_all
  have bad: "IsCorrupted ?bad = 1"
    by code_simp
  then have hyp1: "IsCorrupted ?bad \<noteq> 0
       \<or> \<not> (\<exists>i. B_base r \<le> i \<and> i < B_base r + WINDOWSIZE \<and> sint (seqnum ?bad) = i mod SEQSPACE)"
    by simp
  have old: "IsCorrupted ?old = 0" and sq: "sint (seqnum ?old) = 0"
    by code_simp+
  have "\<not> (\<exists>i::int. 1 \<le> i \<and> i < 7 \<and> 0 = i mod 7)"
    by presburger
  then have hyp2: "IsCorrupted ?old \<noteq> 0
       \<or> \<not> (\<exists>i. B_base r \<le> i \<and> i < B_base r + WINDOWSIZE \<and> sint (seqnum ?old) = i mod SEQSPACE)"
    by (simp add: base sq WINDOWSIZE_def SEQSPACE_def)
  from B_input_discards[OF r hyp1] B_input_discards[OF r hyp2] base bad old r show ?thesis
    by (simp add: SEQSPACE_def)
qed

subsection \<open>Acknowledgments and deliveries of the receiver\<close>

lemma sent_append: "sent (xs @ ys) = sent xs @ sent ys"
  by (induction xs rule: sent.induct) simp_all

lemma delivered_append: "delivered (xs @ ys) = delivered xs @ delivered ys"
  by (induction xs rule: delivered.induct) simp_all

lemma B_deliver_sent: "B_deliver r = Inr r' \<Longrightarrow> sent (B_calls r') = sent (B_calls r)"
proof (induction r rule: B_deliver.induct)
  case (1 r)
  show ?case
  proof (cases "rd (B_received r) (c_mod (B_base r) SEQSPACE)")
    case (Inl f)
    with "1.prems" show ?thesis
      by (subst (asm) B_deliver.simps) simp
  next
    case (Inr b)
    show ?thesis
    proof (cases b)
      case False
      with Inr "1.prems" show ?thesis
        by (subst (asm) B_deliver.simps) simp
    next
      case True
      show ?thesis
      proof (cases "rd (B_buffer r) (c_mod (B_base r) SEQSPACE)")
        case (Inl f)
        with Inr True "1.prems" show ?thesis
          by (subst (asm) B_deliver.simps) simp
      next
        case p: (Inr p)
        let ?r1 = "r\<lparr>B_calls := B_calls r @ [tolayer5 B (payload p)],
                    B_received := (B_received r)[nat (c_mod (B_base r) SEQSPACE) := False],
                    B_base := B_base r + 1\<rparr>"
        from Inr True p "1.prems" have "B_deliver ?r1 = Inr r'"
          by (subst (asm) B_deliver.simps) simp
        from "1.IH"[OF Inr True p this] show ?thesis
          by (simp add: sent_append)
      qed
    qed
  qed
qed

text \<open>
  Whenever \<^verbatim>\<open>B_input\<close> returns, it has handed exactly one unit to layer 3, an
  acknowledgment built as above.
\<close>

lemma B_input_one_ack:
  assumes "B_input p r = Inr r'"
  shows "\<exists>a. sent (B_calls r') = sent (B_calls r) @ [ackpkt_for a]"
proof -
  from assms obtain r2 a where r2: "B_deliver r2 = Inr r'"
    "sent (B_calls r2) = sent (B_calls r) @ [ackpkt_for a]"
    unfolding B_input_def Let_def
    by (auto simp: sent_append ackpkt_for_update split: if_splits sum.splits)
  from B_deliver_sent[OF r2(1)] r2(2) show ?thesis by auto
qed

lemma B_deliver_count:
  "B_deliver r = Inr r' \<Longrightarrow>
   int (length (delivered (B_calls r'))) - B_base r' = int (length (delivered (B_calls r))) - B_base r"
proof (induction r rule: B_deliver.induct)
  case (1 r)
  show ?case
  proof (cases "rd (B_received r) (c_mod (B_base r) SEQSPACE)")
    case (Inl f)
    with "1.prems" show ?thesis
      by (subst (asm) B_deliver.simps) simp
  next
    case (Inr b)
    show ?thesis
    proof (cases b)
      case False
      with Inr "1.prems" show ?thesis
        by (subst (asm) B_deliver.simps) simp
    next
      case True
      show ?thesis
      proof (cases "rd (B_buffer r) (c_mod (B_base r) SEQSPACE)")
        case (Inl f)
        with Inr True "1.prems" show ?thesis
          by (subst (asm) B_deliver.simps) simp
      next
        case p: (Inr p)
        let ?r1 = "r\<lparr>B_calls := B_calls r @ [tolayer5 B (payload p)],
                    B_received := (B_received r)[nat (c_mod (B_base r) SEQSPACE) := False],
                    B_base := B_base r + 1\<rparr>"
        from Inr True p "1.prems" have "B_deliver ?r1 = Inr r'"
          by (subst (asm) B_deliver.simps) simp
        from "1.IH"[OF Inr True p this] show ?thesis
          by (simp add: delivered_append)
      qed
    qed
  qed
qed

lemma B_input_count:
  assumes "B_input p r = Inr r'"
  shows "int (length (delivered (B_calls r'))) - B_base r' = int (length (delivered (B_calls r))) - B_base r"
proof -
  from assms obtain r2 where r2: "B_deliver r2 = Inr r'"
    "delivered (B_calls r2) = delivered (B_calls r)" "B_base r2 = B_base r"
    unfolding B_input_def Let_def
    by (auto simp: delivered_append rd_def wr_def split: if_splits sum.splits)
  from B_deliver_count[OF r2(1)] r2(2,3) show ?thesis by simp
qed

lemma B_run_count:
  "B_run ps r = Inr r' \<Longrightarrow>
   int (length (delivered (B_calls r'))) - B_base r' = int (length (delivered (B_calls r))) - B_base r"
proof (induction ps arbitrary: r)
  case Nil
  then show ?case by simp
next
  case (Cons p ps)
  show ?case
  proof (cases "B_input p r")
    case (Inl f)
    with Cons.prems show ?thesis by simp
  next
    case (Inr r1)
    with Cons.prems have "B_run ps r1 = Inr r'" by simp
    from Cons.IH[OF this] B_input_count[OF Inr] show ?thesis by simp
  qed
qed

text \<open>
  In a run of the receiver that does not fault, the number of payloads delivered is
  \<^verbatim>\<open>B_base\<close>: each delivery is that of the next sequence number. Such a run delivers at
  most five payloads.
\<close>

lemma B_run_delivered_count:
  assumes "B_run ps (B_init B_static) = Inr r"
  shows "int (length (delivered (B_calls r))) = B_base r" and "B_base r \<le> 5"
proof -
  from B_run_count[OF assms] show "int (length (delivered (B_calls r))) = B_base r"
    unfolding B_init_static by (simp add: B_static_def)
  from B_run_inv[OF B_inv_init assms] show "B_base r \<le> 5"
    by (simp add: B_inv_def)
qed

lemma B_hist_mono: "B_hist P r \<Longrightarrow> P \<subseteq> Q \<Longrightarrow> B_hist Q r"
  unfolding B_hist_def by blast

lemma B_hist_calls:
  "B_hist P r \<Longrightarrow> B_hist P (r\<lparr>B_calls := B_calls r @ [tolayer3 e a]\<rparr>)"
  by (simp add: B_hist_def delivered_append)

lemma B_deliver_hist:
  assumes "B_deliver r = Inr r'" and "B_hist P r"
    and "length (B_buffer r) = 6" "length (B_received r) = 6"
    and "0 \<le> B_base r" "B_base r \<le> 6"
  shows "B_hist P r'"
  using assms
proof (induction r rule: B_deliver.induct)
  case (1 r)
  show ?case
  proof (cases "B_base r = 6")
    case True
    then have "c_mod (B_base r) SEQSPACE = 6" by (simp add: c_mod_small)
    with "1.prems"(1,4) show ?thesis
      by (subst (asm) B_deliver.simps) (simp add: rd_def)
  next
    case False
    with "1.prems" have b5: "B_base r \<le> 5" by simp
    with "1.prems" have m: "c_mod (B_base r) SEQSPACE = B_base r"
      by (simp add: c_mod_small)
    let ?k = "nat (B_base r)"
    let ?p = "B_buffer r ! ?k"
    have rdr: "rd (B_received r) (c_mod (B_base r) SEQSPACE) = Inr (B_received r ! ?k)"
      using "1.prems" b5 m by (simp add: rd_def)
    have rdb: "rd (B_buffer r) (c_mod (B_base r) SEQSPACE) = Inr ?p"
      using "1.prems" b5 m by (simp add: rd_def)
    show ?thesis
    proof (cases "B_received r ! ?k")
      case False
      with rdr "1.prems"(1) have "r' = r"
        by (subst (asm) B_deliver.simps) simp
      with "1.prems"(2) show ?thesis by simp
    next
      case True
      let ?r1 = "r\<lparr>B_calls := B_calls r @ [tolayer5 B (payload ?p)],
                    B_received := (B_received r)[nat (c_mod (B_base r) SEQSPACE) := False],
                    B_base := B_base r + 1\<rparr>"
      from rdr rdb True "1.prems"(1) have step: "B_deliver ?r1 = Inr r'"
        by (subst (asm) B_deliver.simps) simp
      from "1.prems"(2) have
        h1: "\<forall>k. 0 \<le> k \<and> k < 6 \<and> B_received r ! nat k \<longrightarrow>
          B_buffer r ! nat k \<in> P \<and> IsCorrupted (B_buffer r ! nat k) = 0
          \<and> sint (seqnum (B_buffer r ! nat k)) = k"
        and h2: "\<forall>n. n < length (delivered (B_calls r)) \<longrightarrow>
          (\<exists>p \<in> P. IsCorrupted p = 0 \<and> sint (seqnum p) = int n
              \<and> payload p = delivered (B_calls r) ! n)"
        and h3: "int (length (delivered (B_calls r))) = B_base r"
        by (simp_all add: B_hist_def)
      from h1 True "1.prems"(5) b5 have p: "?p \<in> P" "IsCorrupted ?p = 0"
        "sint (seqnum ?p) = B_base r"
        by auto
      have eq: "nat k = ?k \<longleftrightarrow> k = B_base r" if "0 \<le> k" for k
        using that "1.prems"(5) by (simp add: eq_nat_nat_iff)
      have g1: "\<forall>k. 0 \<le> k \<and> k < 6 \<and> B_received ?r1 ! nat k \<longrightarrow>
          B_buffer ?r1 ! nat k \<in> P \<and> IsCorrupted (B_buffer ?r1 ! nat k) = 0
          \<and> sint (seqnum (B_buffer ?r1 ! nat k)) = k"
      proof (intro allI impI)
        fix k assume k: "0 \<le> k \<and> k < 6 \<and> B_received ?r1 ! nat k"
        then have "k \<noteq> B_base r"
          using "1.prems"(4,5) b5 m by auto
        with k eq[of k] m have "B_received r ! nat k" by simp
        with k h1 show "B_buffer ?r1 ! nat k \<in> P \<and> IsCorrupted (B_buffer ?r1 ! nat k) = 0
          \<and> sint (seqnum (B_buffer ?r1 ! nat k)) = k"
          by simp
      qed
      have len: "length (delivered (B_calls ?r1)) = Suc (length (delivered (B_calls r)))"
        by (simp add: delivered_append)
      have g2: "\<forall>n. n < length (delivered (B_calls ?r1)) \<longrightarrow>
          (\<exists>p \<in> P. IsCorrupted p = 0 \<and> sint (seqnum p) = int n
              \<and> payload p = delivered (B_calls ?r1) ! n)"
      proof (intro allI impI)
        fix n assume n: "n < length (delivered (B_calls ?r1))"
        show "\<exists>p \<in> P. IsCorrupted p = 0 \<and> sint (seqnum p) = int n
              \<and> payload p = delivered (B_calls ?r1) ! n"
        proof (cases "n < length (delivered (B_calls r))")
          case True
          with h2 obtain q where "q \<in> P" "IsCorrupted q = 0" "sint (seqnum q) = int n"
            "payload q = delivered (B_calls r) ! n" by blast
          with True show ?thesis
            by (intro bexI[of _ q]) (simp_all add: delivered_append nth_append)
        next
          case False
          with n len have "n = length (delivered (B_calls r))" by simp
          with p h3 show ?thesis
            by (intro bexI[of _ ?p]) (simp_all add: delivered_append nth_append)
        qed
      qed
      from h3 have g3: "int (length (delivered (B_calls ?r1))) = B_base ?r1"
        by (simp add: delivered_append)
      have "B_hist P ?r1"
        unfolding B_hist_def by (intro conjI g1 g2 g3)
      with "1.prems"(3,4,5) b5 show ?thesis
        by (intro "1.IH"[OF rdr True rdb step]) simp_all
    qed
  qed
qed

lemma B_input_hist:
  assumes "B_inv r" and "B_hist P r" and "B_input p r = Inr r'"
  shows "B_hist (insert p P) r'"
proof -
  from assms(1) have len: "length (B_buffer r) = 6" "length (B_received r) = 6"
    and b: "0 \<le> B_base r" "B_base r \<le> 5"
    by (simp_all add: B_inv_def)
  from assms(2) have hq: "B_hist (insert p P) r"
    by (rule B_hist_mono) blast
  show ?thesis
  proof (cases "IsCorrupted p \<noteq> 0
      \<or> B_inWindow_for (sint (seqnum p)) (B_base r) (B_base r + WINDOWSIZE) = 0")
    case True
    from assms(3) show ?thesis
      unfolding B_input_reject[OF True]
      by (rule B_deliver_hist) (use hq len b in \<open>simp_all add: B_hist_calls\<close>)
  next
    case False
    then have a: "IsCorrupted p = 0"
      "B_inWindow_for (sint (seqnum p)) (B_base r) (B_base r + WINDOWSIZE) \<noteq> 0" by auto
    show ?thesis
    proof (cases "0 \<le> sint (seqnum p) \<and> sint (seqnum p) < 6")
      case False
      from B_input_fault[OF a False len(2)] assms(3) show ?thesis by simp
    next
      case True
      then have i: "0 \<le> sint (seqnum p)" "sint (seqnum p) < 6" by auto
      let ?i = "nat (sint (seqnum p))"
      have eq: "nat k = ?i \<longleftrightarrow> k = sint (seqnum p)" if "0 \<le> k" for k
        using that i(1) by (simp add: eq_nat_nat_iff)
      show ?thesis
      proof (cases "B_received r ! ?i")
        case True
        let ?r3 = "r\<lparr>B_calls := B_calls r @ [tolayer3 B (ackpkt_for (seqnum p))]\<rparr>"
        from True assms(3) have d: "B_deliver ?r3 = Inr r'"
          unfolding B_input_accept[OF a i len] by simp
        have "B_hist (insert p P) ?r3"
          using hq by (rule B_hist_calls)
        with d show ?thesis
          by (rule B_deliver_hist) (use len b in simp_all)
      next
        case False
        let ?r2 = "r\<lparr>B_buffer := (B_buffer r)[?i := p], B_received := (B_received r)[?i := True]\<rparr>"
        let ?r3 = "?r2\<lparr>B_calls := B_calls ?r2 @ [tolayer3 B (ackpkt_for (seqnum p))]\<rparr>"
        from False assms(3) have d: "B_deliver ?r3 = Inr r'"
          unfolding B_input_accept[OF a i len] by simp
        from hq have
          h1: "\<forall>k. 0 \<le> k \<and> k < 6 \<and> B_received r ! nat k \<longrightarrow>
            B_buffer r ! nat k \<in> insert p P \<and> IsCorrupted (B_buffer r ! nat k) = 0
            \<and> sint (seqnum (B_buffer r ! nat k)) = k"
          and h2: "\<forall>n. n < length (delivered (B_calls r)) \<longrightarrow>
            (\<exists>q \<in> insert p P. IsCorrupted q = 0 \<and> sint (seqnum q) = int n
                \<and> payload q = delivered (B_calls r) ! n)"
          and h3: "int (length (delivered (B_calls r))) = B_base r"
          by (simp_all add: B_hist_def)
        have g1: "\<forall>k. 0 \<le> k \<and> k < 6 \<and> B_received ?r2 ! nat k \<longrightarrow>
            B_buffer ?r2 ! nat k \<in> insert p P \<and> IsCorrupted (B_buffer ?r2 ! nat k) = 0
            \<and> sint (seqnum (B_buffer ?r2 ! nat k)) = k"
        proof (intro allI impI)
          fix k assume k: "0 \<le> k \<and> k < 6 \<and> B_received ?r2 ! nat k"
          show "B_buffer ?r2 ! nat k \<in> insert p P \<and> IsCorrupted (B_buffer ?r2 ! nat k) = 0
            \<and> sint (seqnum (B_buffer ?r2 ! nat k)) = k"
          proof (cases "k = sint (seqnum p)")
            case True
            with a(1) i len show ?thesis by simp
          next
            case False
            with k eq[of k] have "B_received r ! nat k" by simp
            with k h1 have "B_buffer r ! nat k \<in> insert p P \<and> IsCorrupted (B_buffer r ! nat k) = 0
              \<and> sint (seqnum (B_buffer r ! nat k)) = k" by blast
            with False k eq[of k] show ?thesis by simp
          qed
        qed
        have g2: "\<forall>n. n < length (delivered (B_calls ?r2)) \<longrightarrow>
            (\<exists>q \<in> insert p P. IsCorrupted q = 0 \<and> sint (seqnum q) = int n
                \<and> payload q = delivered (B_calls ?r2) ! n)"
          using h2 by simp
        have g3: "int (length (delivered (B_calls ?r2))) = B_base ?r2"
          using h3 by simp
        have "B_hist (insert p P) ?r2"
          unfolding B_hist_def by (intro conjI g1 g2 g3)
        then have "B_hist (insert p P) ?r3"
          by (rule B_hist_calls)
        with d show ?thesis
          by (rule B_deliver_hist) (use len b in simp_all)
      qed
    qed
  qed
qed

lemma B_run_hist:
  "B_inv r \<Longrightarrow> B_hist P r \<Longrightarrow> B_run ps r = Inr r' \<Longrightarrow> B_hist (P \<union> set ps) r'"
proof (induction ps arbitrary: r P)
  case Nil
  then show ?case by simp
next
  case (Cons p ps)
  show ?case
  proof (cases "B_input p r")
    case (Inl f)
    with Cons.prems(3) show ?thesis by simp
  next
    case (Inr r1)
    with Cons.prems have "B_inv r1" "B_hist (insert p P) r1" "B_run ps r1 = Inr r'"
      by (simp_all add: B_input_inv B_input_hist)
    from Cons.IH[OF this] show ?thesis by simp
  qed
qed

text \<open>
  In a run of the receiver that does not fault, the payloads are delivered in the
  order of their sequence numbers, starting at 0, each once and each taken from an
  uncorrupted unit that arrived with that sequence number.
\<close>

lemma B_run_delivers_in_order:
  assumes "B_run ps (B_init B_static) = Inr r" and "n < length (delivered (B_calls r))"
  shows "\<exists>p \<in> set ps. IsCorrupted p = 0 \<and> sint (seqnum p) = int n
            \<and> payload p = delivered (B_calls r) ! n"
proof -
  have "B_hist {} (B_init B_static)"
    unfolding B_init_static by (simp add: B_hist_def B_static_def)
  from B_run_hist[OF B_inv_init this assms(1)] assms(2) show ?thesis
    by (simp add: B_hist_def)
qed

text \<open>
  C10. After the unit with sequence number 0 is delivered, \<^verbatim>\<open>B_base\<close> is 1 and the
  window is 1 to 6. An uncorrupted unit with sequence number 6 is in the window, and
  \<^verbatim>\<open>B_input\<close> reads \<^verbatim>\<open>B_received[6]\<close> before it has sent any acknowledgment.
\<close>

theorem B_input_slot_six_faults:
  "(case B_run [datapkt 0 (replicate 20 65)] (B_init B_static) of
      Inl f \<Rightarrow> False
    | Inr r \<Rightarrow> B_base r = 1 \<and> IsCorrupted (datapkt 6 (replicate 20 65)) = 0
        \<and> B_inWindow_for 6 (B_base r) (B_base r + WINDOWSIZE) = 1
        \<and> B_input (datapkt 6 (replicate 20 65)) r = Inl OutOfBounds)"
  by code_simp

text \<open>
  C1. Five units with sequence numbers 0 to 4, uncorrupted and in order, are delivered
  in order. The sixth, with sequence number 5, is accepted too, but after its delivery
  \<^verbatim>\<open>B_base\<close> is 6 and the loop reads \<^verbatim>\<open>B_received[6]\<close>.
\<close>

theorem B_input_sixth_delivery_faults:
  "(case B_run (map (\<lambda>n. datapkt n (replicate 20 65)) [0, 1, 2, 3, 4]) (B_init B_static) of
      Inl f \<Rightarrow> False
    | Inr r \<Rightarrow> B_base r = 5
        \<and> delivered (B_calls r) = replicate 5 (replicate 20 65)
        \<and> IsCorrupted (datapkt 5 (replicate 20 65)) = 0
        \<and> B_input (datapkt 5 (replicate 20 65)) r = Inl OutOfBounds)"
  by code_simp

subsection \<open>The sender's loops and invariant\<close>

lemma A_init_static: "A_init A_static = A_static"
  by code_simp

lemma A_inv_static: "A_inv A_static"
  by (simp add: A_inv_def A_static_def)

lemma A_output_full:
  "\<not> A_nextseq s < A_base s + WINDOWSIZE \<Longrightarrow>
   A_output m s = Inr (s\<lparr>window_full := window_full s + 1\<rparr>)"
  by (simp add: A_output_def)

lemma A_output_fault:
  assumes "A_nextseq s < A_base s + WINDOWSIZE" and "length (A_window s) = 6"
    and "c_mod (A_nextseq s) SEQSPACE = 6"
  shows "A_output m s = Inl OutOfBounds"
  using assms by (simp add: A_output_def Let_def wr_def)

lemma A_output_accept:
  assumes "A_nextseq s < A_base s + WINDOWSIZE"
    and "length (A_window s) = 6" "length (A_acked s) = 6" "length (A_timer_running s) = 6"
    and "0 \<le> A_nextseq s" "A_nextseq s \<le> 5"
  shows "A_output m s = Inr (s\<lparr>
      A_window := (A_window s)[nat (A_nextseq s) := datapkt (word_of_int (A_nextseq s)) (data m)],
      A_acked := (A_acked s)[nat (A_nextseq s) := False],
      A_calls := A_calls s @ tolayer3 A (datapkt (word_of_int (A_nextseq s)) (data m))
         # (if A_timer_running s ! nat (A_nextseq s) then [] else [starttimer A RTT]),
      A_timer_running := (A_timer_running s)[nat (A_nextseq s) := True],
      A_nextseq := A_nextseq s + 1\<rparr>)"
proof -
  from assms(5,6) have m: "c_mod (A_nextseq s) SEQSPACE = A_nextseq s"
    by (simp add: c_mod_small)
  have id: "A_timer_running s ! nat (A_nextseq s) \<Longrightarrow>
      (A_timer_running s)[nat (A_nextseq s) := True] = A_timer_running s"
    by (metis list_update_id)
  show ?thesis
    using assms unfolding A_output_def Let_def m
    by (simp add: wr_def rd_def datapkt_def Let_def id)
qed

lemma A_output_inv:
  assumes "A_inv s" and "A_output m s = Inr s'"
  shows "A_inv s' \<and> A_base s' = A_base s \<and> A_nextseq s \<le> A_nextseq s'"
proof (cases "A_nextseq s < A_base s + WINDOWSIZE")
  case False
  from assms show ?thesis
    unfolding A_output_full[OF False] by (auto simp: A_inv_def)
next
  case True
  from assms(1) have len: "length (A_window s) = 6" "length (A_acked s) = 6"
      "length (A_timer_running s) = 6" and n: "0 \<le> A_nextseq s" "A_nextseq s \<le> 6"
    by (simp_all add: A_inv_def)
  show ?thesis
  proof (cases "A_nextseq s = 6")
    case six: True
    then have "c_mod (A_nextseq s) SEQSPACE = 6" by (simp add: c_mod_small)
    from A_output_fault[OF True len(1) this] assms(2) show ?thesis by simp
  next
    case False
    with n have n5: "A_nextseq s \<le> 5" by simp
    have eq: "nat j = nat (A_nextseq s) \<longleftrightarrow> j = A_nextseq s" if "0 \<le> j" for j
      using that n(1) by (simp add: eq_nat_nat_iff)
    from assms(2) have s': "s' = s\<lparr>
      A_window := (A_window s)[nat (A_nextseq s) := datapkt (word_of_int (A_nextseq s)) (data m)],
      A_acked := (A_acked s)[nat (A_nextseq s) := False],
      A_calls := A_calls s @ tolayer3 A (datapkt (word_of_int (A_nextseq s)) (data m))
         # (if A_timer_running s ! nat (A_nextseq s) then [] else [starttimer A RTT]),
      A_timer_running := (A_timer_running s)[nat (A_nextseq s) := True],
      A_nextseq := A_nextseq s + 1\<rparr>"
      unfolding A_output_accept[OF True len n(1) n5] by simp
    have a: "\<forall>j. 0 \<le> j \<and> j < 6 \<and> A_acked s' ! nat j \<longrightarrow> A_base s' \<le> j \<and> j < A_nextseq s'"
    proof (intro allI impI)
      fix j assume j: "0 \<le> j \<and> j < 6 \<and> A_acked s' ! nat j"
      then have "j \<noteq> A_nextseq s"
        using len n n5 by (auto simp: s')
      with j have "A_acked s ! nat j"
        using eq[of j] by (simp add: s')
      with j assms(1) have "A_base s \<le> j \<and> j < A_nextseq s"
        by (simp add: A_inv_def)
      then show "A_base s' \<le> j \<and> j < A_nextseq s'" by (simp add: s')
    qed
    have t: "\<forall>j. A_base s' \<le> j \<and> j < A_nextseq s' \<and> \<not> A_acked s' ! nat j
             \<longrightarrow> A_timer_running s' ! nat j"
    proof (intro allI impI)
      fix j assume j: "A_base s' \<le> j \<and> j < A_nextseq s' \<and> \<not> A_acked s' ! nat j"
      with assms(1) have j0: "0 \<le> j" by (simp add: A_inv_def s')
      show "A_timer_running s' ! nat j"
      proof (cases "j = A_nextseq s")
        case True
        then show ?thesis using len n n5 by (simp add: s')
      next
        case False
        with j have "A_base s \<le> j \<and> j < A_nextseq s \<and> \<not> A_acked s ! nat j"
          using eq[OF j0] by (simp add: s')
        with assms(1) have "A_timer_running s ! nat j" by (simp add: A_inv_def)
        with False show ?thesis using eq[OF j0] by (simp add: s')
      qed
    qed
    from assms(1) n5 a t show ?thesis
      by (simp add: A_inv_def) (simp add: s')
  qed
qed

lemma A_slide_char:
  assumes "length (A_acked s) = 6" and "0 \<le> A_base s" and "A_base s \<le> A_nextseq s"
    and "A_nextseq s \<le> 6"
    and "\<forall>j. 0 \<le> j \<and> j < 6 \<and> A_acked s ! nat j \<longrightarrow> A_base s \<le> j \<and> j < A_nextseq s"
    and "A_slide s = Inr s'"
  shows "s' = s\<lparr>A_acked := A_acked s', A_base := A_base s'\<rparr>
     \<and> length (A_acked s') = 6 \<and> A_base s \<le> A_base s' \<and> A_base s' \<le> A_nextseq s
     \<and> A_base s' \<le> 5
     \<and> (\<forall>j. 0 \<le> j \<and> j < 6 \<longrightarrow> A_acked s' ! nat j = (A_acked s ! nat j \<and> A_base s' \<le> j))
     \<and> (\<forall>j. A_base s \<le> j \<and> j < A_base s' \<longrightarrow> A_acked s ! nat j)
     \<and> \<not> A_acked s' ! nat (A_base s')"
  using assms
proof (induction s rule: A_slide.induct)
  case (1 s)
  show ?case
  proof (cases "A_base s = 6")
    case True
    then have "c_mod (A_base s) SEQSPACE = 6" by (simp add: c_mod_small)
    with "1.prems"(1,6) show ?thesis
      by (subst (asm) A_slide.simps) (simp add: rd_def)
  next
    case False
    with "1.prems" have b5: "A_base s \<le> 5" by simp
    with "1.prems" have m: "c_mod (A_base s) SEQSPACE = A_base s"
      by (simp add: c_mod_small)
    have rda: "rd (A_acked s) (c_mod (A_base s) SEQSPACE) = Inr (A_acked s ! nat (A_base s))"
      using "1.prems" b5 m by (simp add: rd_def)
    show ?thesis
    proof (cases "A_acked s ! nat (A_base s)")
      case stop: False
      with rda "1.prems"(6) have "s' = s"
        by (subst (asm) A_slide.simps) simp
      moreover have "\<forall>j. 0 \<le> j \<and> j < 6
          \<longrightarrow> A_acked s ! nat j = (A_acked s ! nat j \<and> A_base s \<le> j)"
        using "1.prems"(5) by blast
      moreover have "\<forall>j. A_base s \<le> j \<and> j < A_base s \<longrightarrow> A_acked s ! nat j"
        by auto
      ultimately show ?thesis
        using "1.prems"(1,2,3) b5 stop by (intro conjI) simp_all
    next
      case True
      let ?a = "(A_acked s)[nat (A_base s) := False]"
      let ?s1 = "s\<lparr>A_acked := ?a, A_base := A_base s + 1\<rparr>"
      have wra: "wr (A_acked s) (c_mod (A_base s) SEQSPACE) False = Inr ?a"
        using "1.prems" b5 m by (simp add: wr_def)
      from "1.prems"(6) have step: "A_slide ?s1 = Inr s'"
        using rda wra True by (subst (asm) A_slide.simps) simp
      from True "1.prems"(2,5) b5 have lt: "A_base s < A_nextseq s" by auto
      have eq: "nat j = nat (A_base s) \<longleftrightarrow> j = A_base s" if "0 \<le> j" for j
        using that "1.prems"(2) by (simp add: eq_nat_nat_iff)
      have pre: "\<forall>j. 0 \<le> j \<and> j < 6 \<and> A_acked ?s1 ! nat j
           \<longrightarrow> A_base ?s1 \<le> j \<and> j < A_nextseq ?s1"
      proof (intro allI impI)
        fix j assume j: "0 \<le> j \<and> j < 6 \<and> A_acked ?s1 ! nat j"
        then have ne: "j \<noteq> A_base s" using "1.prems"(1,2) b5 by auto
        with j eq[of j] have "A_acked s ! nat j" by simp
        with j "1.prems"(5) have "A_base s \<le> j \<and> j < A_nextseq s" by simp
        with ne show "A_base ?s1 \<le> j \<and> j < A_nextseq ?s1" by simp
      qed
      have ih: "s' = ?s1\<lparr>A_acked := A_acked s', A_base := A_base s'\<rparr>
         \<and> length (A_acked s') = 6 \<and> A_base ?s1 \<le> A_base s' \<and> A_base s' \<le> A_nextseq ?s1
         \<and> A_base s' \<le> 5
         \<and> (\<forall>j. 0 \<le> j \<and> j < 6 \<longrightarrow> A_acked s' ! nat j = (A_acked ?s1 ! nat j \<and> A_base s' \<le> j))
         \<and> (\<forall>j. A_base ?s1 \<le> j \<and> j < A_base s' \<longrightarrow> A_acked ?s1 ! nat j)
         \<and> \<not> A_acked s' ! nat (A_base s')"
        using "1.prems"(1,2,4) lt
        by (intro "1.IH"[OF rda True wra _ _ _ _ pre step]) simp_all
      have fr: "s' = s\<lparr>A_acked := A_acked s', A_base := A_base s'\<rparr>"
        by (subst conjunct1[OF ih]) simp
      have fl: "\<forall>j. 0 \<le> j \<and> j < 6 \<longrightarrow> A_acked s' ! nat j = (A_acked s ! nat j \<and> A_base s' \<le> j)"
      proof (intro allI impI)
        fix j :: int assume j: "0 \<le> j \<and> j < 6"
        show "A_acked s' ! nat j = (A_acked s ! nat j \<and> A_base s' \<le> j)"
        proof (cases "j = A_base s")
          case True
          with ih j "1.prems"(1) b5 show ?thesis by auto
        next
          case False
          with ih j eq[of j] show ?thesis by simp
        qed
      qed
      have run: "\<forall>j. A_base s \<le> j \<and> j < A_base s' \<longrightarrow> A_acked s ! nat j"
      proof (intro allI impI)
        fix j assume j: "A_base s \<le> j \<and> j < A_base s'"
        show "A_acked s ! nat j"
        proof (cases "j = A_base s")
          case True
          with \<open>A_acked s ! nat (A_base s)\<close> show ?thesis by simp
        next
          case False
          with j have "A_base ?s1 \<le> j \<and> j < A_base s'" by simp
          with ih have "A_acked ?s1 ! nat j" by blast
          with False j "1.prems"(2) eq[of j] show ?thesis by simp
        qed
      qed
      from ih fr fl run show ?thesis by simp
    qed
  qed
qed

lemma A_input_for_eq:
  assumes "0 \<le> i" and "A_nextseq s \<le> 6"
  shows "A_input_for ack i s
     = (if i \<le> ack \<and> ack < A_nextseq s then A_ack_slot ack s else Inr s)"
  using assms
proof (induction ack i s rule: A_input_for.induct)
  case (1 ack i s)
  show ?case
  proof (cases "i < A_nextseq s")
    case False
    then show ?thesis
      by (subst A_input_for.simps) auto
  next
    case True
    with "1.prems" have m: "c_mod i SEQSPACE = i"
      by (simp add: c_mod_small)
    show ?thesis
    proof (cases "ack = i")
      case True
      with \<open>i < A_nextseq s\<close> m show ?thesis
        by (subst A_input_for.simps) simp
    next
      case False
      then have ne: "ack \<noteq> c_mod i SEQSPACE" by (simp add: m)
      have "A_input_for ack i s = A_input_for ack (i + 1) s"
        using True ne by (subst A_input_for.simps) simp
      also have "\<dots> = (if i + 1 \<le> ack \<and> ack < A_nextseq s then A_ack_slot ack s else Inr s)"
        using "1.prems" by (intro "1.IH"[OF True ne]) simp_all
      also have "\<dots> = (if i \<le> ack \<and> ack < A_nextseq s then A_ack_slot ack s else Inr s)"
        using False by auto
      finally show ?thesis .
    qed
  qed
qed

lemma A_ack_slot_eq:
  assumes "length (A_acked s) = 6" "length (A_timer_running s) = 6"
    and "0 \<le> a" "a \<le> 5"
  shows "A_ack_slot a s =
     (if A_acked s ! nat a then Inr s
      else A_slide (if A_timer_running s ! nat a
        then s\<lparr>A_acked := (A_acked s)[nat a := True],
               total_ACKs_received := total_ACKs_received s + 1,
               A_calls := A_calls s @ [stoptimer A],
               A_timer_running := (A_timer_running s)[nat a := False]\<rparr>
        else s\<lparr>A_acked := (A_acked s)[nat a := True],
               total_ACKs_received := total_ACKs_received s + 1\<rparr>))"
  using assms by (simp add: A_ack_slot_def rd_def wr_def Let_def)

lemma A_input_corrupted: "IsCorrupted p \<noteq> 0 \<Longrightarrow> A_input p s = Inr s"
  by (simp add: A_input_def)

lemma A_input_inv:
  assumes "A_inv s" and "A_input p s = Inr s'"
  shows "A_inv s' \<and> A_base s \<le> A_base s' \<and> A_nextseq s' = A_nextseq s"
proof -
  from assms(1) have len: "length (A_window s) = 6" "length (A_acked s) = 6"
      "length (A_timer_running s) = 6"
    and b: "0 \<le> A_base s" "A_base s \<le> A_nextseq s" "A_nextseq s \<le> 6"
    and fa: "\<forall>j. 0 \<le> j \<and> j < 6 \<and> A_acked s ! nat j \<longrightarrow> A_base s \<le> j \<and> j < A_nextseq s"
    and ft: "\<forall>j. A_base s \<le> j \<and> j < A_nextseq s \<and> \<not> A_acked s ! nat j
             \<longrightarrow> A_timer_running s ! nat j"
    by (simp_all add: A_inv_def)
  let ?a = "sint (acknum p)"
  show ?thesis
  proof (cases "IsCorrupted p \<noteq> 0 \<or> \<not> (A_base s \<le> ?a \<and> ?a < A_nextseq s) \<or> A_acked s ! nat ?a")
    case True
    have "A_input p s = Inr s"
    proof (cases "IsCorrupted p \<noteq> 0")
      case True
      then show ?thesis by (simp add: A_input_def)
    next
      case nc: False
      show ?thesis
      proof (cases "A_base s \<le> ?a \<and> ?a < A_nextseq s")
        case False
        with nc b show ?thesis
          by (auto simp: A_input_def A_input_for_eq)
      next
        case win: True
        with True nc have "A_acked s ! nat ?a" by simp
        with win nc b len show ?thesis
          by (simp add: A_input_def A_input_for_eq A_ack_slot_eq)
      qed
    qed
    with assms show ?thesis by simp
  next
    case False
    then have nc: "IsCorrupted p = 0" and win: "A_base s \<le> ?a" "?a < A_nextseq s"
      and un: "\<not> A_acked s ! nat ?a" by auto
    from win b have a05: "0 \<le> ?a" "?a \<le> 5" by simp_all
    from ft win un have tr: "A_timer_running s ! nat ?a" by simp
    let ?s2 = "s\<lparr>A_acked := (A_acked s)[nat ?a := True],
               total_ACKs_received := total_ACKs_received s + 1,
               A_calls := A_calls s @ [stoptimer A],
               A_timer_running := (A_timer_running s)[nat ?a := False]\<rparr>"
    have "A_input p s = A_slide ?s2"
      using nc win b len a05 un tr
      by (simp add: A_input_def A_input_for_eq A_ack_slot_eq)
    with assms(2) have sl: "A_slide ?s2 = Inr s'" by simp
    have eq: "nat j = nat ?a \<longleftrightarrow> j = ?a" if "0 \<le> j" for j
      using that a05(1) by (simp add: eq_nat_nat_iff)
    have pre: "\<forall>j. 0 \<le> j \<and> j < 6 \<and> A_acked ?s2 ! nat j
         \<longrightarrow> A_base ?s2 \<le> j \<and> j < A_nextseq ?s2"
    proof (intro allI impI)
      fix j assume j: "0 \<le> j \<and> j < 6 \<and> A_acked ?s2 ! nat j"
      show "A_base ?s2 \<le> j \<and> j < A_nextseq ?s2"
      proof (cases "j = ?a")
        case True
        with win show ?thesis by simp
      next
        case False
        with j eq[of j] have "A_acked s ! nat j" by simp
        with j fa show ?thesis by simp
      qed
    qed
    have ch: "s' = ?s2\<lparr>A_acked := A_acked s', A_base := A_base s'\<rparr>
     \<and> length (A_acked s') = 6 \<and> A_base ?s2 \<le> A_base s' \<and> A_base s' \<le> A_nextseq ?s2
     \<and> A_base s' \<le> 5
     \<and> (\<forall>j. 0 \<le> j \<and> j < 6 \<longrightarrow> A_acked s' ! nat j = (A_acked ?s2 ! nat j \<and> A_base s' \<le> j))
     \<and> (\<forall>j. A_base ?s2 \<le> j \<and> j < A_base s' \<longrightarrow> A_acked ?s2 ! nat j)
     \<and> \<not> A_acked s' ! nat (A_base s')"
      using len b by (intro A_slide_char[OF _ _ _ _ pre sl]) simp_all
    then have fr: "s' = ?s2\<lparr>A_acked := A_acked s', A_base := A_base s'\<rparr>" by blast
    have w: "A_window s' = A_window s" "A_timer_running s' = (A_timer_running s)[nat ?a := False]"
      "A_nextseq s' = A_nextseq s"
      by (subst fr, simp)+
    have a: "\<forall>j. 0 \<le> j \<and> j < 6 \<and> A_acked s' ! nat j \<longrightarrow> A_base s' \<le> j \<and> j < A_nextseq s'"
    proof (intro allI impI)
      fix j assume j: "0 \<le> j \<and> j < 6 \<and> A_acked s' ! nat j"
      with ch have "A_acked ?s2 ! nat j \<and> A_base s' \<le> j" by blast
      with j pre show "A_base s' \<le> j \<and> j < A_nextseq s'" by (simp add: w)
    qed
    have t: "\<forall>j. A_base s' \<le> j \<and> j < A_nextseq s' \<and> \<not> A_acked s' ! nat j
             \<longrightarrow> A_timer_running s' ! nat j"
    proof (intro allI impI)
      fix j assume j: "A_base s' \<le> j \<and> j < A_nextseq s' \<and> \<not> A_acked s' ! nat j"
      with ch b have j06: "0 \<le> j \<and> j < 6" by (simp add: w)
      with ch have "A_acked s' ! nat j = (A_acked ?s2 ! nat j \<and> A_base s' \<le> j)" by blast
      with j have n2: "\<not> A_acked ?s2 ! nat j" by blast
      have ne: "j \<noteq> ?a"
      proof
        assume "j = ?a"
        with n2 len a05 show False by simp
      qed
      with n2 j06 eq[of j] have "\<not> A_acked s ! nat j" by simp
      moreover from j ch have "A_base s \<le> j \<and> j < A_nextseq s" by (simp add: w)
      ultimately have "A_timer_running s ! nat j" using ft by simp
      with ne j06 eq[of j] show "A_timer_running s' ! nat j" by (simp add: w)
    qed
    from ch have "A_base s \<le> A_base s'" "A_base s' \<le> A_nextseq s" "A_base s' \<le> 5"
      "length (A_acked s') = 6" by simp_all
    with len b a t show ?thesis
      by (simp add: A_inv_def w)
  qed
qed

lemma A_timer_for_char:
  assumes "length (A_window s) = 6" "length (A_acked s) = 6" "length (A_timer_running s) = 6"
    and "0 \<le> i" and "A_nextseq s \<le> 6"
  shows "\<exists>s'. A_timer_for i s = Inr s'
     \<and> s' = s\<lparr>A_calls := A_calls s', packets_resent := packets_resent s',
              A_timer_running := A_timer_running s'\<rparr>
     \<and> length (A_timer_running s') = 6
     \<and> (\<forall>j. 0 \<le> j \<and> j < 6 \<longrightarrow> A_timer_running s' ! nat j
            = (A_timer_running s ! nat j \<or> (i \<le> j \<and> j < A_nextseq s \<and> unacked s j)))
     \<and> A_calls s' = A_calls s
           @ concat (map (resend_calls s) (filter (unacked s) [i..A_nextseq s - 1]))
     \<and> packets_resent s' = packets_resent s
           + int (length (filter (unacked s) [i..A_nextseq s - 1]))"
  using assms
proof (induction i s rule: A_timer_for.induct)
  case (1 i s)
  show ?case
  proof (cases "i < A_nextseq s")
    case False
    then have "A_timer_for i s = Inr s"
      by (subst A_timer_for.simps) simp
    with False "1.prems" show ?thesis by auto
  next
    case True
    with "1.prems" have i5: "i \<le> 5" and m: "c_mod i SEQSPACE = i"
      by (simp_all add: c_mod_small)
    have up: "[i..A_nextseq s - 1] = i # [i + 1..A_nextseq s - 1]"
      using True by (simp add: upto_rec1)
    have rda: "rd (A_acked s) (c_mod i SEQSPACE) = Inr (A_acked s ! nat i)"
      using "1.prems" i5 m by (simp add: rd_def)
    show ?thesis
    proof (cases "A_acked s ! nat i")
      case acked: True
      have step: "A_timer_for i s = A_timer_for (i + 1) s"
        using True rda acked by (subst A_timer_for.simps) simp
      have nb: "\<not> \<not> A_acked s ! nat i" using acked by simp
      from "1.IH"(2)[OF True rda nb] "1.prems"
      obtain s' where s': "A_timer_for (i + 1) s = Inr s'"
        "s' = s\<lparr>A_calls := A_calls s', packets_resent := packets_resent s',
              A_timer_running := A_timer_running s'\<rparr>"
        "length (A_timer_running s') = 6"
        "\<forall>j. 0 \<le> j \<and> j < 6 \<longrightarrow> A_timer_running s' ! nat j
            = (A_timer_running s ! nat j \<or> (i + 1 \<le> j \<and> j < A_nextseq s \<and> unacked s j))"
        "A_calls s' = A_calls s
           @ concat (map (resend_calls s) (filter (unacked s) [i + 1..A_nextseq s - 1]))"
        "packets_resent s' = packets_resent s
           + int (length (filter (unacked s) [i + 1..A_nextseq s - 1]))"
        by auto
      have flags: "\<forall>j. 0 \<le> j \<and> j < 6 \<longrightarrow> A_timer_running s' ! nat j
            = (A_timer_running s ! nat j \<or> (i \<le> j \<and> j < A_nextseq s \<and> unacked s j))"
      proof (intro allI impI)
        fix j :: int assume j: "0 \<le> j \<and> j < 6"
        have "(i \<le> j \<and> j < A_nextseq s \<and> unacked s j)
            = (i + 1 \<le> j \<and> j < A_nextseq s \<and> unacked s j)"
          using acked by (cases "j = i") (auto simp: unacked_def)
        with s'(4) j show "A_timer_running s' ! nat j
            = (A_timer_running s ! nat j \<or> (i \<le> j \<and> j < A_nextseq s \<and> unacked s j))"
          by simp
      qed
      from acked have ui: "\<not> unacked s i" by (simp add: unacked_def)
      show ?thesis
        using s'(1,2,3,5,6) flags ui unfolding step up
        by (intro exI[of _ s']) simp
    next
      case unack: False
      let ?p = "A_window s ! nat i"
      let ?t = "A_timer_running s ! nat i"
      let ?s1 = "s\<lparr>A_calls := A_calls s @ [tolayer3 A ?p]
                               @ (if ?t then [stoptimer A] else []) @ [starttimer A RTT],
                     packets_resent := packets_resent s + 1,
                     A_timer_running := (A_timer_running s)[nat (c_mod i SEQSPACE) := True]\<rparr>"
      have rdw: "rd (A_window s) (c_mod i SEQSPACE) = Inr ?p"
        using "1.prems" i5 m by (simp add: rd_def)
      have rdt: "rd (A_timer_running s) (c_mod i SEQSPACE) = Inr ?t"
        using "1.prems" i5 m by (simp add: rd_def)
      have step: "A_timer_for i s = A_timer_for (i + 1) ?s1"
        using True rda rdw rdt unack by (subst A_timer_for.simps) simp
      have nb: "\<not> A_acked s ! nat i" using unack by simp
      from "1.IH"(1)[OF True rda nb rdw rdt] "1.prems"
      obtain s' where s': "A_timer_for (i + 1) ?s1 = Inr s'"
        "s' = ?s1\<lparr>A_calls := A_calls s', packets_resent := packets_resent s',
              A_timer_running := A_timer_running s'\<rparr>"
        "length (A_timer_running s') = 6"
        "\<forall>j. 0 \<le> j \<and> j < 6 \<longrightarrow> A_timer_running s' ! nat j
            = (A_timer_running ?s1 ! nat j \<or> (i + 1 \<le> j \<and> j < A_nextseq ?s1 \<and> unacked ?s1 j))"
        "A_calls s' = A_calls ?s1
           @ concat (map (resend_calls ?s1) (filter (unacked ?s1) [i + 1..A_nextseq ?s1 - 1]))"
        "packets_resent s' = packets_resent ?s1
           + int (length (filter (unacked ?s1) [i + 1..A_nextseq ?s1 - 1]))"
        by auto
      have un1: "unacked ?s1 = unacked s"
        by (simp add: unacked_def fun_eq_iff)
      have rs1: "map (resend_calls (s\<lparr>A_calls := c, packets_resent := n,
                     A_timer_running := (A_timer_running s)[nat (c_mod i SEQSPACE) := True]\<rparr>))
                   (filter (unacked s) [i + 1..A_nextseq s - 1])
               = map (resend_calls s) (filter (unacked s) [i + 1..A_nextseq s - 1])" for c n
      proof (rule map_cong[OF refl])
        fix j assume "j \<in> set (filter (unacked s) [i + 1..A_nextseq s - 1])"
        then have "i < j" by simp
        with "1.prems" have "nat j \<noteq> nat i" by simp
        then show "resend_calls (s\<lparr>A_calls := c, packets_resent := n,
                     A_timer_running := (A_timer_running s)[nat (c_mod i SEQSPACE) := True]\<rparr>) j
                 = resend_calls s j"
          by (simp add: resend_calls_def m)
      qed
      have flags: "\<forall>j. 0 \<le> j \<and> j < 6 \<longrightarrow> A_timer_running s' ! nat j
            = (A_timer_running s ! nat j \<or> (i \<le> j \<and> j < A_nextseq s \<and> unacked s j))"
      proof (intro allI impI)
        fix j :: int assume j: "0 \<le> j \<and> j < 6"
        show "A_timer_running s' ! nat j
            = (A_timer_running s ! nat j \<or> (i \<le> j \<and> j < A_nextseq s \<and> unacked s j))"
        proof (cases "j = i")
          case True
          with s'(4) j "1.prems" \<open>i < A_nextseq s\<close> unack m show ?thesis
            by (simp add: unacked_def)
        next
          case False
          with j "1.prems" have "nat j \<noteq> nat i" by (simp add: eq_nat_nat_iff)
          with s'(4) j False m show ?thesis
            by (auto simp: unacked_def)
        qed
      qed
      from unack have ui: "unacked s i" by (simp add: unacked_def)
      have frame: "s' = s\<lparr>A_calls := A_calls s', packets_resent := packets_resent s',
              A_timer_running := A_timer_running s'\<rparr>"
        by (subst s'(2)) simp
      have calls: "A_calls s' = A_calls s
           @ concat (map (resend_calls s) (filter (unacked s) [i..A_nextseq s - 1]))"
        using s'(5) ui unfolding up un1 by (simp add: rs1 resend_calls_def)
      have cnt: "packets_resent s' = packets_resent s
           + int (length (filter (unacked s) [i..A_nextseq s - 1]))"
        using s'(6) ui unfolding up un1 by simp
      show ?thesis
        unfolding step using s'(1,3) frame flags calls cnt
        by (intro exI[of _ s']) simp
    qed
  qed
qed

lemma A_timerinterrupt_inv:
  assumes "A_inv s" and "A_timerinterrupt s = Inr s'"
  shows "A_inv s' \<and> A_base s' = A_base s \<and> A_nextseq s' = A_nextseq s"
proof -
  from assms(1) have len: "length (A_window s) = 6" "length (A_acked s) = 6"
      "length (A_timer_running s) = 6"
    and b: "0 \<le> A_base s" "A_base s \<le> A_nextseq s" "A_nextseq s \<le> 6" "A_base s \<le> 5"
    and fa: "\<forall>j. 0 \<le> j \<and> j < 6 \<and> A_acked s ! nat j \<longrightarrow> A_base s \<le> j \<and> j < A_nextseq s"
    and ft: "\<forall>j. A_base s \<le> j \<and> j < A_nextseq s \<and> \<not> A_acked s ! nat j
             \<longrightarrow> A_timer_running s ! nat j"
    by (simp_all add: A_inv_def)
  from A_timer_for_char[OF len b(1,3)] assms(2)
  have fr: "s' = s\<lparr>A_calls := A_calls s', packets_resent := packets_resent s',
              A_timer_running := A_timer_running s'\<rparr>"
    and lt: "length (A_timer_running s') = 6"
    and fl: "\<forall>j. 0 \<le> j \<and> j < 6 \<longrightarrow> A_timer_running s' ! nat j
            = (A_timer_running s ! nat j \<or> (A_base s \<le> j \<and> j < A_nextseq s \<and> unacked s j))"
    by (auto simp: A_timerinterrupt_def)
  have w: "A_window s' = A_window s" "A_acked s' = A_acked s"
      "A_nextseq s' = A_nextseq s" "A_base s' = A_base s"
    by (subst fr, simp)+
  have t: "\<forall>j. A_base s' \<le> j \<and> j < A_nextseq s' \<and> \<not> A_acked s' ! nat j
             \<longrightarrow> A_timer_running s' ! nat j"
  proof (intro allI impI)
    fix j assume j: "A_base s' \<le> j \<and> j < A_nextseq s' \<and> \<not> A_acked s' ! nat j"
    with b have "0 \<le> j \<and> j < 6" by (simp add: w)
    with fl j show "A_timer_running s' ! nat j" by (simp add: w unacked_def)
  qed
  from len b fa t lt show ?thesis
    by (simp add: A_inv_def w)
qed

lemma A_step_inv:
  assumes "A_inv s" and "A_step e s = Inr s'"
  shows "A_inv s' \<and> A_base s \<le> A_base s' \<and> A_nextseq s \<le> A_nextseq s'"
proof (cases e)
  case (Output m)
  with A_output_inv[OF assms(1), of m s'] assms(2) show ?thesis by simp
next
  case (Ack_arrival p)
  with A_input_inv[OF assms(1), of p s'] assms(2) show ?thesis by simp
next
  case Timeout
  with A_timerinterrupt_inv[OF assms(1), of s'] assms(2) show ?thesis by simp
qed

lemma A_run_inv: "A_inv s \<Longrightarrow> A_run es s = Inr s' \<Longrightarrow> A_inv s'"
proof (induction es arbitrary: s)
  case Nil
  then show ?case by simp
next
  case (Cons e es)
  show ?case
  proof (cases "A_step e s")
    case (Inl f)
    with Cons.prems(2) show ?thesis by simp
  next
    case (Inr s1)
    with Cons.prems(1) have "A_inv s1" using A_step_inv by blast
    moreover from Inr Cons.prems(2) have "A_run es s1 = Inr s'" by simp
    ultimately show ?thesis by (rule Cons.IH)
  qed
qed

lemma A_reach_inv: "A_run es (A_init A_static) = Inr s \<Longrightarrow> A_inv s"
  using A_run_inv[OF _ , of "A_init A_static" es s] A_inv_static
  by (simp add: A_init_static)

text \<open>
  In a run of the sender that does not fault, the window never holds more than
  \<open>WINDOWSIZE\<close> units, and by \<open>A_step_inv\<close> no call decreases \<^verbatim>\<open>A_base\<close> or
  \<^verbatim>\<open>A_nextseq\<close>; such a run accepts at most six messages.
\<close>

lemma A_window_bounds:
  assumes "A_run es (A_init A_static) = Inr s"
  shows "0 \<le> A_nextseq s - A_base s \<and> A_nextseq s - A_base s \<le> WINDOWSIZE \<and> A_nextseq s \<le> 6"
  using A_reach_inv[OF assms] by (simp add: A_inv_def WINDOWSIZE_def)

subsection \<open>Accepting messages and acknowledgments\<close>

text \<open>
  C5. Six messages are accepted and the acknowledgment for 0 has arrived, so
  \<open>A_nextseq = 6 < A_base + WINDOWSIZE = 7\<close>: \<^verbatim>\<open>A_output\<close> takes the branch that
  accepts the message and writes \<^verbatim>\<open>A_window[6]\<close>.
\<close>

theorem A_output_seventh_slot_faults:
  "(case A_run (replicate 6 (Output (msg_of 65)) @ [Ack_arrival (ackpkt_for 0)])
          (A_init A_static) of
      Inl f \<Rightarrow> False
    | Inr s \<Rightarrow> A_base s = 1 \<and> A_nextseq s = 6 \<and> A_nextseq s < A_base s + WINDOWSIZE
        \<and> A_output (msg_of 66) s = Inl OutOfBounds)"
  by code_simp

text \<open>
  Two messages are accepted and the acknowledgment for 1 arrives first: slot 1 is
  marked and \<^verbatim>\<open>A_base\<close> stays 0; the acknowledgment for 0 then moves \<^verbatim>\<open>A_base\<close> to 2
  and leaves no flag set.
\<close>

lemma scenario_B:
  "(case A_run [Output (msg_of 65), Output (msg_of 66), Ack_arrival (ackpkt_for 1)]
          (A_init A_static) of
      Inl f \<Rightarrow> False
    | Inr s \<Rightarrow> A_base s = 0 \<and> A_acked s ! 1
        \<and> (case A_input (ackpkt_for 0) s of
              Inl f \<Rightarrow> False
            | Inr s' \<Rightarrow> A_base s' = 2 \<and> A_acked s' = replicate 6 False))"
  by code_simp

text \<open>
  C4. Six messages are accepted and the acknowledgments for 0 to 4 have arrived, so
  \<^verbatim>\<open>A_base\<close> is 5. The uncorrupted acknowledgment for 5 marks slot 5, slides
  \<^verbatim>\<open>A_base\<close> to 6 and then reads \<^verbatim>\<open>A_acked[6]\<close>.
\<close>

theorem A_input_slide_faults:
  "(case A_run (replicate 6 (Output (msg_of 65))
                @ map (\<lambda>n. Ack_arrival (ackpkt_for n)) [0, 1, 2, 3, 4]) (A_init A_static) of
      Inl f \<Rightarrow> False
    | Inr s \<Rightarrow> A_base s = 5 \<and> A_nextseq s = 6 \<and> IsCorrupted (ackpkt_for 5) = 0
        \<and> A_input (ackpkt_for 5) s = Inl OutOfBounds)"
  by code_simp

text \<open>
  C3. Six messages are accepted, the acknowledgments for 1 and 0 arrive, and the next
  message is accepted into slot 6: the run ends in an access outside the arrays and
  leaves no sender state.
\<close>

theorem A_run_faults_in_seventh_slot:
  "A_run (replicate 6 (Output (msg_of 65))
          @ [Ack_arrival (ackpkt_for 1), Ack_arrival (ackpkt_for 0), Output (msg_of 66)])
     (A_init A_static) = Inl OutOfBounds"
  by code_simp

subsection \<open>Retransmission on timeout\<close>

lemma A_timerinterrupt_char:
  assumes "A_inv s"
  shows "\<exists>s'. A_timerinterrupt s = Inr s'
     \<and> s' = s\<lparr>A_calls := A_calls s', packets_resent := packets_resent s',
              A_timer_running := A_timer_running s'\<rparr>
     \<and> A_calls s' = A_calls s @ concat (map
           (\<lambda>i. [tolayer3 A (A_window s ! nat (i mod SEQSPACE)), stoptimer A, starttimer A RTT])
           (filter (\<lambda>i. \<not> A_acked s ! nat (i mod SEQSPACE)) [A_base s..A_nextseq s - 1]))
     \<and> packets_resent s' = packets_resent s
         + int (length (filter (\<lambda>i. \<not> A_acked s ! nat (i mod SEQSPACE)) [A_base s..A_nextseq s - 1]))
     \<and> (\<forall>i. A_base s \<le> i \<and> i < A_nextseq s \<and> \<not> A_acked s ! nat (i mod SEQSPACE)
            \<longrightarrow> A_timer_running s' ! nat (i mod SEQSPACE))"
proof -
  from assms have len: "length (A_window s) = 6" "length (A_acked s) = 6"
      "length (A_timer_running s) = 6"
    and b: "0 \<le> A_base s" "A_nextseq s \<le> 6"
    and ft: "\<forall>j. A_base s \<le> j \<and> j < A_nextseq s \<and> \<not> A_acked s ! nat j
             \<longrightarrow> A_timer_running s ! nat j"
    by (simp_all add: A_inv_def)
  let ?js = "[A_base s..A_nextseq s - 1]"
  have slot: "i mod SEQSPACE = i" if "i \<in> set ?js" for i
    using that b by (simp add: SEQSPACE_def)
  have fil: "filter (\<lambda>i. \<not> A_acked s ! nat (i mod SEQSPACE)) ?js = filter (unacked s) ?js"
    by (rule filter_cong[OF refl]) (simp add: slot unacked_def del: set_upto)
  have mp: "map (\<lambda>i. [tolayer3 A (A_window s ! nat (i mod SEQSPACE)), stoptimer A, starttimer A RTT])
              (filter (unacked s) ?js)
          = map (resend_calls s) (filter (unacked s) ?js)"
  proof (rule map_cong[OF refl])
    fix i assume i: "i \<in> set (filter (unacked s) ?js)"
    then have "i \<in> set ?js" by simp
    from slot[OF this] have sl: "i mod SEQSPACE = i" .
    from i ft have "A_timer_running s ! nat i" by (simp add: unacked_def)
    then show "[tolayer3 A (A_window s ! nat (i mod SEQSPACE)), stoptimer A, starttimer A RTT]
        = resend_calls s i"
      by (simp add: resend_calls_def sl)
  qed
  from A_timer_for_char[OF len b]
  obtain s' where s': "A_timer_for (A_base s) s = Inr s'"
     "s' = s\<lparr>A_calls := A_calls s', packets_resent := packets_resent s',
              A_timer_running := A_timer_running s'\<rparr>"
     "\<forall>j. 0 \<le> j \<and> j < 6 \<longrightarrow> A_timer_running s' ! nat j
            = (A_timer_running s ! nat j \<or> (A_base s \<le> j \<and> j < A_nextseq s \<and> unacked s j))"
     "A_calls s' = A_calls s @ concat (map (resend_calls s) (filter (unacked s) ?js))"
     "packets_resent s' = packets_resent s + int (length (filter (unacked s) ?js))"
    by blast
  have fl: "\<forall>i. A_base s \<le> i \<and> i < A_nextseq s \<and> \<not> A_acked s ! nat (i mod SEQSPACE)
            \<longrightarrow> A_timer_running s' ! nat (i mod SEQSPACE)"
  proof (intro allI impI)
    fix i assume i: "A_base s \<le> i \<and> i < A_nextseq s \<and> \<not> A_acked s ! nat (i mod SEQSPACE)"
    with b have sl: "i mod SEQSPACE = i" and i06: "0 \<le> i \<and> i < 6"
      by (simp_all add: SEQSPACE_def)
    with i s'(3) show "A_timer_running s' ! nat (i mod SEQSPACE)"
      by (simp add: unacked_def)
  qed
  from s'(1,2,4,5) fl show ?thesis
    unfolding A_timerinterrupt_def fil mp
    by (intro exI[of _ s']) simp
qed

lemma sent_resends:
  "sent (concat (map (\<lambda>i. [tolayer3 A (f i), stoptimer A, starttimer A RTT]) js)) = map f js"
  by (induction js) simp_all

text \<open>
  C6. In any state the sender reaches from \<^verbatim>\<open>A_init\<close> by calls that stay inside the
  arrays, \<^verbatim>\<open>A_timerinterrupt\<close> returns,
  and the units it hands to layer 3 are exactly the buffered units
  \<^verbatim>\<open>A_window[i % SEQSPACE]\<close> for the sequence numbers \<open>i\<close> of \<open>[A_base, A_nextseq)\<close>,
  in increasing order, whose slot is not marked acknowledged, each as it is buffered;
  the timer flag of each such slot is set afterwards; \<^verbatim>\<open>A_base\<close>, \<^verbatim>\<open>A_nextseq\<close>,
  \<^verbatim>\<open>A_window\<close> and \<^verbatim>\<open>A_acked\<close> are unchanged.
\<close>

theorem A_timerinterrupt_retransmits_unacked:
  assumes "A_run es (A_init A_static) = Inr s"
  shows "\<exists>s'. A_timerinterrupt s = Inr s'
     \<and> sent (A_calls s') = sent (A_calls s)
          @ map (\<lambda>i. A_window s ! nat (i mod SEQSPACE))
              (filter (\<lambda>i. \<not> A_acked s ! nat (i mod SEQSPACE)) [A_base s..A_nextseq s - 1])
     \<and> (\<forall>i. A_base s \<le> i \<and> i < A_nextseq s \<and> \<not> A_acked s ! nat (i mod SEQSPACE)
            \<longrightarrow> A_timer_running s' ! nat (i mod SEQSPACE))
     \<and> A_base s' = A_base s \<and> A_nextseq s' = A_nextseq s
     \<and> A_window s' = A_window s \<and> A_acked s' = A_acked s"
proof -
  from assms have "A_inv s" by (rule A_reach_inv)
  from A_timerinterrupt_char[OF this]
  obtain s' where s': "A_timerinterrupt s = Inr s'"
     "s' = s\<lparr>A_calls := A_calls s', packets_resent := packets_resent s',
              A_timer_running := A_timer_running s'\<rparr>"
     "A_calls s' = A_calls s @ concat (map
           (\<lambda>i. [tolayer3 A (A_window s ! nat (i mod SEQSPACE)), stoptimer A, starttimer A RTT])
           (filter (\<lambda>i. \<not> A_acked s ! nat (i mod SEQSPACE)) [A_base s..A_nextseq s - 1]))"
     "\<forall>i. A_base s \<le> i \<and> i < A_nextseq s \<and> \<not> A_acked s ! nat (i mod SEQSPACE)
            \<longrightarrow> A_timer_running s' ! nat (i mod SEQSPACE)"
    by blast
  have w: "A_window s' = A_window s" "A_acked s' = A_acked s"
      "A_nextseq s' = A_nextseq s" "A_base s' = A_base s"
    by (subst s'(2), simp)+
  have "sent (A_calls s') = sent (A_calls s)
          @ map (\<lambda>i. A_window s ! nat (i mod SEQSPACE))
              (filter (\<lambda>i. \<not> A_acked s ! nat (i mod SEQSPACE)) [A_base s..A_nextseq s - 1])"
    unfolding s'(3) sent_append sent_resends ..
  with s'(1,4) w show ?thesis
    by (intro exI[of _ s']) simp
qed

text \<open>
  The theorem in the state after three messages and the acknowledgment for 1: the
  timer interrupt sends the units 0 and 2 again, as buffered.
\<close>

theorem A_timerinterrupt_retransmits_unacked_witness:
  "(case A_run [Output (msg_of 65), Output (msg_of 66), Output (msg_of 67),
                Ack_arrival (ackpkt_for 1)] (A_init A_static) of
      Inl f \<Rightarrow> False
    | Inr s \<Rightarrow> A_base s = 0 \<and> A_nextseq s = 3
        \<and> A_acked s = [False, True, False, False, False, False]
        \<and> (\<exists>s'. A_timerinterrupt s = Inr s'
             \<and> sent (A_calls s') = sent (A_calls s)
                  @ [datapkt 0 (replicate 20 65), datapkt 2 (replicate 20 67)]
             \<and> A_timer_running s' ! 0 \<and> A_timer_running s' ! 2
             \<and> A_base s' = 0 \<and> A_nextseq s' = 3
             \<and> A_window s' = A_window s \<and> A_acked s' = A_acked s))"
proof -
  let ?es = "[Output (msg_of 65), Output (msg_of 66), Output (msg_of 67),
              Ack_arrival (ackpkt_for 1)]"
  have "(case A_run ?es (A_init A_static) of
      Inl f \<Rightarrow> False
    | Inr s \<Rightarrow> A_base s = 0 \<and> A_nextseq s = 3
        \<and> A_acked s = [False, True, False, False, False, False]
        \<and> A_window s ! 0 = datapkt 0 (replicate 20 65)
        \<and> A_window s ! 2 = datapkt 2 (replicate 20 67))"
    by code_simp
  then obtain s where run: "A_run ?es (A_init A_static) = Inr s"
    and s: "A_base s = 0" "A_nextseq s = 3"
      "A_acked s = [False, True, False, False, False, False]"
      "A_window s ! 0 = datapkt 0 (replicate 20 65)"
      "A_window s ! 2 = datapkt 2 (replicate 20 67)"
    by (cases "A_run ?es (A_init A_static)") simp_all
  have js: "[0..(2::int)] = [0, 1, 2]"
    by (simp add: upto_rec1)
  from A_timerinterrupt_retransmits_unacked[OF run]
  obtain s' where s': "A_timerinterrupt s = Inr s'"
     "sent (A_calls s') = sent (A_calls s)
          @ map (\<lambda>i. A_window s ! nat (i mod SEQSPACE))
              (filter (\<lambda>i. \<not> A_acked s ! nat (i mod SEQSPACE)) [A_base s..A_nextseq s - 1])"
     "\<forall>i. A_base s \<le> i \<and> i < A_nextseq s \<and> \<not> A_acked s ! nat (i mod SEQSPACE)
            \<longrightarrow> A_timer_running s' ! nat (i mod SEQSPACE)"
     "A_base s' = A_base s" "A_nextseq s' = A_nextseq s"
     "A_window s' = A_window s" "A_acked s' = A_acked s"
    by blast
  from s'(3)[rule_format, of 0] s'(3)[rule_format, of 2] s
  have fl: "A_timer_running s' ! 0" "A_timer_running s' ! 2"
    by (simp_all add: SEQSPACE_def)
  from s'(2) s have "sent (A_calls s') = sent (A_calls s)
                  @ [datapkt 0 (replicate 20 65), datapkt 2 (replicate 20 67)]"
    by (simp add: js SEQSPACE_def)
  with run s s'(1,4,5,6,7) fl show ?thesis
    by simp
qed

subsection \<open>The shared timer\<close>

text \<open>
  C9, as stated, fails: \<^verbatim>\<open>A_output\<close> tests the timer flag of the slot it fills, not
  whether the endpoint's timer is armed. Two messages in a row, with no timer
  interrupt in between, call \<^verbatim>\<open>starttimer\<close> twice and never \<^verbatim>\<open>stoptimer\<close>.
\<close>

theorem A_output_starts_armed_timer:
  "(case A_run [Output (msg_of 65), Output (msg_of 66)] (A_init A_static) of
      Inl f \<Rightarrow> False
    | Inr s \<Rightarrow> started_while_running False (A_calls s)
        \<and> filter (\<lambda>c. c = starttimer A RTT \<or> c = stoptimer A) (A_calls s)
            = [starttimer A RTT, starttimer A RTT])"
  by code_simp

text \<open>
  C9, amended. In any state the sender reaches from \<^verbatim>\<open>A_init\<close> by calls that stay
  inside the arrays: when \<^verbatim>\<open>A_output\<close>
  returns, it has called \<^verbatim>\<open>starttimer\<close> exactly if it accepted the message and the timer
  flag of the slot it filled was clear, whatever the state of the shared timer; and
  \<^verbatim>\<open>A_timerinterrupt\<close> calls, for each unacknowledged unit of the window in turn,
  \<^verbatim>\<open>tolayer3\<close>, \<^verbatim>\<open>stoptimer\<close>, \<^verbatim>\<open>starttimer\<close>: every \<^verbatim>\<open>starttimer\<close> of the
  interrupt comes directly after a \<^verbatim>\<open>stoptimer\<close>.
\<close>

theorem A_timer_calls:
  assumes "A_run es (A_init A_static) = Inr s"
  shows "(case A_output m s of
            Inl f \<Rightarrow> True
          | Inr s' \<Rightarrow> A_calls s' = A_calls s @
              (if A_nextseq s < A_base s + WINDOWSIZE
               then tolayer3 A (datapkt (word_of_int (A_nextseq s mod SEQSPACE)) (data m))
                 # (if A_timer_running s ! nat (A_nextseq s mod SEQSPACE) then []
                    else [starttimer A RTT])
               else []))
     \<and> (\<exists>s'. A_timerinterrupt s = Inr s'
          \<and> A_calls s' = A_calls s @ concat (map
               (\<lambda>i. [tolayer3 A (A_window s ! nat (i mod SEQSPACE)), stoptimer A,
                      starttimer A RTT])
               (filter (\<lambda>i. \<not> A_acked s ! nat (i mod SEQSPACE)) [A_base s..A_nextseq s - 1])))"
proof -
  from assms have inv: "A_inv s" by (rule A_reach_inv)
  then have len: "length (A_window s) = 6" "length (A_acked s) = 6"
      "length (A_timer_running s) = 6" and n: "0 \<le> A_nextseq s" "A_nextseq s \<le> 6"
    by (simp_all add: A_inv_def)
  have out: "(case A_output m s of
            Inl f \<Rightarrow> True
          | Inr s' \<Rightarrow> A_calls s' = A_calls s @
              (if A_nextseq s < A_base s + WINDOWSIZE
               then tolayer3 A (datapkt (word_of_int (A_nextseq s mod SEQSPACE)) (data m))
                 # (if A_timer_running s ! nat (A_nextseq s mod SEQSPACE) then []
                    else [starttimer A RTT])
               else []))"
  proof (cases "A_nextseq s < A_base s + WINDOWSIZE")
    case False
    then show ?thesis by (simp add: A_output_full)
  next
    case True
    show ?thesis
    proof (cases "A_nextseq s = 6")
      case six: True
      then have "c_mod (A_nextseq s) SEQSPACE = 6" by (simp add: c_mod_small)
      from A_output_fault[OF True len(1) this] show ?thesis by simp
    next
      case False
      with n have n5: "A_nextseq s \<le> 5" by simp
      with n have sl: "A_nextseq s mod SEQSPACE = A_nextseq s" by (simp add: SEQSPACE_def)
      show ?thesis
        unfolding A_output_accept[OF True len n(1) n5] sl using True by simp
    qed
  qed
  from A_timerinterrupt_char[OF inv] out show ?thesis
    by blast
qed

text \<open>
  The theorem in the state after one message, with the timer armed: a second message
  calls \<^verbatim>\<open>starttimer\<close> again, and a timer interrupt calls \<^verbatim>\<open>stoptimer\<close> and then
  \<^verbatim>\<open>starttimer\<close> for the one unit in flight.
\<close>

theorem A_timer_calls_witness:
  "(case A_run [Output (msg_of 65)] (A_init A_static) of
      Inl f \<Rightarrow> False
    | Inr s \<Rightarrow>
        A_calls s = [tolayer3 A (datapkt 0 (replicate 20 65)), starttimer A RTT]
        \<and> (case A_output (msg_of 66) s of
              Inl f \<Rightarrow> False
            | Inr s' \<Rightarrow> A_calls s' = A_calls s
                @ [tolayer3 A (datapkt 1 (replicate 20 66)), starttimer A RTT])
        \<and> (\<exists>s'. A_timerinterrupt s = Inr s'
              \<and> A_calls s' = A_calls s
                @ [tolayer3 A (datapkt 0 (replicate 20 65)), stoptimer A, starttimer A RTT]))"
proof -
  let ?es = "[Output (msg_of 65)]"
  have "(case A_run ?es (A_init A_static) of
      Inl f \<Rightarrow> False
    | Inr s \<Rightarrow> A_base s = 0 \<and> A_nextseq s = 1
        \<and> A_acked s = replicate 6 False
        \<and> A_timer_running s = [True, False, False, False, False, False]
        \<and> A_window s ! 0 = datapkt 0 (replicate 20 65)
        \<and> A_calls s = [tolayer3 A (datapkt 0 (replicate 20 65)), starttimer A RTT]
        \<and> (case A_output (msg_of 66) s of Inl f \<Rightarrow> False | Inr s' \<Rightarrow> True))"
    by code_simp
  then obtain s where run: "A_run ?es (A_init A_static) = Inr s"
    and s: "A_base s = 0" "A_nextseq s = 1"
      "A_acked s = replicate 6 False"
      "A_timer_running s = [True, False, False, False, False, False]"
      "A_window s ! 0 = datapkt 0 (replicate 20 65)"
      "A_calls s = [tolayer3 A (datapkt 0 (replicate 20 65)), starttimer A RTT]"
    and ok: "(case A_output (msg_of 66) s of Inl f \<Rightarrow> False | Inr s' \<Rightarrow> True)"
    by (cases "A_run ?es (A_init A_static)") simp_all
  from ok obtain s1 where s1: "A_output (msg_of 66) s = Inr s1"
    by (cases "A_output (msg_of 66) s") simp_all
  have d: "data (msg_of 66) = replicate 20 66"
    by (simp add: msg_of_def)
  from A_timer_calls[OF run, of "msg_of 66"] s s1 run d show ?thesis
    by (simp add: SEQSPACE_def WINDOWSIZE_def)
qed

subsection \<open>Slot indices beyond the arrays\<close>

text \<open>
  The variant \<^verbatim>\<open>src/ass2/sr.c\<close> addresses a slot by the sequence number modulo
  \<open>WINDOWSIZE\<close>, which stays inside the arrays.
\<close>

lemma ass2_slot_in_bounds:
  "0 \<le> a \<Longrightarrow> 0 \<le> c_mod a WINDOWSIZE \<and> c_mod a WINDOWSIZE < WINDOWSIZE"
  by (simp add: c_mod_def WINDOWSIZE_def sgn_if)

text \<open>
  C2. The arrays have \<open>WINDOWSIZE = 6\<close> elements and a slot is addressed by the
  sequence number modulo \<open>SEQSPACE = 7\<close>. After six accepted messages and the
  acknowledgment of the first, the window is open again and the index the next
  \<^verbatim>\<open>A_output\<close> uses for \<^verbatim>\<open>A_window\<close>, \<^verbatim>\<open>A_acked\<close> and \<^verbatim>\<open>A_timer_running\<close> is 6,
  the length of each of them; after five units delivered in order the receiver's
  \<^verbatim>\<open>B_base\<close> is 5, and once the sixth is delivered the loop tests
  \<^verbatim>\<open>B_received\<close> at index 6, its length.
\<close>

theorem slot_index_reaches_array_length:
  "(case A_run (replicate 6 (Output (msg_of 65)) @ [Ack_arrival (ackpkt_for 0)])
          (A_init A_static) of
      Inl f \<Rightarrow> False
    | Inr s \<Rightarrow> A_nextseq s < A_base s + WINDOWSIZE
        \<and> c_mod (A_nextseq s) SEQSPACE = WINDOWSIZE
        \<and> int (length (A_window s)) = WINDOWSIZE
        \<and> int (length (A_acked s)) = WINDOWSIZE
        \<and> int (length (A_timer_running s)) = WINDOWSIZE
        \<and> wr (A_window s) (c_mod (A_nextseq s) SEQSPACE) zero_pkt = Inl OutOfBounds)
   \<and> (case B_run (map (\<lambda>n. datapkt n (replicate 20 65)) [0, 1, 2, 3, 4]) (B_init B_static) of
      Inl f \<Rightarrow> False
    | Inr r \<Rightarrow> B_base r = 5
        \<and> c_mod (B_base r + 1) SEQSPACE = WINDOWSIZE
        \<and> int (length (B_received r)) = WINDOWSIZE
        \<and> int (length (B_buffer r)) = WINDOWSIZE
        \<and> rd (B_received r) (c_mod (B_base r + 1) SEQSPACE) = Inl OutOfBounds)"
  by code_simp

end
